theory Spec2Isabelle
  imports Main "HOL-Library.Word" "HOL-Library.Signed_Division"
begin

unbundle bit_operations_syntax

section \<open>Go values: bytes, panics, errors, slices\<close>

text \<open>
  A shallow embedding of the go-tcmu package: the SCSI command accessors and the
  scatter-gather cursor of \<^verbatim>\<open>scsi_handler.go\<close>, the emulation functions of
  \<^verbatim>\<open>cmd_handler.go\<close>, and the command ring of \<^verbatim>\<open>poll.go\<close> and
  \<^verbatim>\<open>struct_access.go\<close>.

  A Go run-time panic is a value of type \<open>panic\<close> on the left of a sum; a Go \<open>error\<close>
  result is a value of type \<open>go_error\<close>. A byte slice is the list of its bytes; slicing
  and indexing check their bounds as Go does (a slice's capacity is taken to be its
  length).
\<close>

type_synonym byte = "8 word"

datatype panic =
    IndexOutOfRange
  | SliceBoundsOutOfRange
  | IntegerDivideByZero
  | WhatOpcodeIs byte
  | UnusualScsiCommandLength
  | UnsupportedCommandFromTcmu nat
  | MakeSliceLenOutOfRange
  | OutsideMmap

datatype go_error = OutOfBufferSpace | EOF

definition bnd :: "'e + 'a \<Rightarrow> ('a \<Rightarrow> 'e + 'b) \<Rightarrow> 'e + 'b" where
  "bnd m f = (case m of Inl e \<Rightarrow> Inl e | Inr x \<Rightarrow> f x)"

definition index :: "'a list \<Rightarrow> nat \<Rightarrow> panic + 'a" where
  "index xs i = (if i < length xs then Inr (xs ! i) else Inl IndexOutOfRange)"

definition slice :: "'a list \<Rightarrow> nat \<Rightarrow> nat \<Rightarrow> panic + 'a list" where
  "slice xs lo hi =
     (if lo \<le> hi \<and> hi \<le> length xs then Inr (take (hi - lo) (drop lo xs))
      else Inl SliceBoundsOutOfRange)"

text \<open>A Go string is its bytes.\<close>

definition bytes :: "string \<Rightarrow> byte list" where
  "bytes s = map of_char s"

text \<open>\<^verbatim>\<open>binary.BigEndian.Uint16/Uint32/Uint64\<close> and their \<^verbatim>\<open>Put\<close> counterparts.\<close>

definition be_bytes :: "byte list \<Rightarrow> 'a::len word" where
  "be_bytes bs = foldl (\<lambda>acc b. push_bit 8 acc OR ucast b) 0 bs"

definition Uint16 :: "byte list \<Rightarrow> 16 word" where
  "Uint16 b = be_bytes (take 2 b)"

definition Uint32 :: "byte list \<Rightarrow> 32 word" where
  "Uint32 b = be_bytes (take 4 b)"

definition Uint64 :: "byte list \<Rightarrow> 64 word" where
  "Uint64 b = be_bytes (take 8 b)"

definition be_put :: "nat \<Rightarrow> 'a::len word \<Rightarrow> byte list" where
  "be_put n w = map (\<lambda>i. ucast (drop_bit (8 * (n - 1 - i)) w)) [0..<n]"

section \<open>The device data a command reads\<close>

record DataSizes =
  VolumeSize :: "64 word"
  BlockSize :: "64 word"

text \<open>
  \<open>SCSIHandler\<close> keeps the fields of the Go struct that the modelled code reads. A
  command's \<^verbatim>\<open>device\<close> pointer is only ever used for \<^verbatim>\<open>Sizes()\<close> and
  \<^verbatim>\<open>GetDevConfig()\<close>, both of which read this immutable handler, so a command
  carries the handler itself.
\<close>

record SCSIHandler =
  VolumeName :: string
  DataSizes :: DataSizes
  HBA :: int
  LUN :: int

definition Sizes :: "SCSIHandler \<Rightarrow> DataSizes" where
  "Sizes d = DataSizes d"

definition GetDevConfig :: "SCSIHandler \<Rightarrow> string" where
  "GetDevConfig d = ''go-tcmu//'' @ VolumeName d"

section \<open>SCSI commands and responses\<close>

record SCSICmd =
  id_cmd :: "16 word"
  cdb :: "byte list"
  vecs :: "byte list list"
  offset :: nat
  vecoffset :: nat
  device :: SCSIHandler
  Buf :: "byte list"

record SCSIResponse =
  id_resp :: "16 word"
  status :: byte
  senseBuffer :: "byte list"

definition Command :: "SCSICmd \<Rightarrow> panic + byte" where
  "Command c = index (cdb c) 0"

definition GetCDB :: "SCSICmd \<Rightarrow> nat \<Rightarrow> panic + byte" where
  "GetCDB c i = index (cdb c) i"

definition CdbLen :: "SCSICmd \<Rightarrow> panic + nat" where
  "CdbLen c =
     bnd (index (cdb c) 0) (\<lambda>opcode.
       if opcode \<le> 0x1f then Inr 6
       else if opcode \<le> 0x5f then Inr 10
       else if opcode = 0x7f then bnd (index (cdb c) 7) (\<lambda>b. Inr (unat b + 8))
       else if opcode \<ge> 0x80 \<and> opcode \<le> 0x9f then Inr 16
       else if opcode \<ge> 0xa0 \<and> opcode \<le> 0xbf then Inr 12
       else Inl (WhatOpcodeIs opcode))"

definition LBA :: "SCSICmd \<Rightarrow> panic + 64 word" where
  "LBA c =
     bnd (CdbLen c) (\<lambda>n.
       if n = 6 then
         bnd (slice (cdb c) 2 4) (\<lambda>s.
           let val6 = (ucast (Uint16 s) :: byte)
           in if val6 = 0 then Inr 256 else Inr (ucast val6))
       else if n = 10 then bnd (slice (cdb c) 2 6) (\<lambda>s. Inr (ucast (Uint32 s)))
       else if n = 12 then bnd (slice (cdb c) 2 6) (\<lambda>s. Inr (ucast (Uint32 s)))
       else if n = 16 then bnd (slice (cdb c) 2 10) (\<lambda>s. Inr (Uint64 s))
       else Inl UnusualScsiCommandLength)"

definition XferLen :: "SCSICmd \<Rightarrow> panic + 32 word" where
  "XferLen c =
     bnd (CdbLen c) (\<lambda>n.
       if n = 6 then bnd (index (cdb c) 4) (\<lambda>b. Inr (ucast b))
       else if n = 10 then bnd (slice (cdb c) 7 9) (\<lambda>s. Inr (ucast (Uint16 s)))
       else if n = 12 then bnd (slice (cdb c) 6 10) (\<lambda>s. Inr (Uint32 s))
       else if n = 16 then bnd (slice (cdb c) 10 14) (\<lambda>s. Inr (Uint32 s))
       else Inl UnusualScsiCommandLength)"

section \<open>The scatter-gather cursor: Write and Read\<close>

text \<open>
  The loop of \<^verbatim>\<open>SCSICmd.Write\<close>. The Go variable \<^verbatim>\<open>toWrite\<close> starts as
  \<^verbatim>\<open>len(b)\<close> and decreases by what \<^verbatim>\<open>boff\<close> increases by, so it is
  \<open>length b - boff\<close> throughout and is not carried separately. \<^verbatim>\<open>copy(dst, src)\<close>
  copies \<open>min (length dst) (length src)\<close> bytes. The result is the command as the loop
  leaves it, the count returned and the error returned.
\<close>

definition copy_into :: "byte list \<Rightarrow> nat \<Rightarrow> byte list \<Rightarrow> byte list" where
  "copy_into dst at src =
     (let n = min (length dst - at) (length src)
      in take at dst @ take n src @ drop (at + n) dst)"

function write_loop :: "SCSICmd \<Rightarrow> byte list \<Rightarrow> nat \<Rightarrow> panic + (SCSICmd \<times> nat \<times> go_error option)" where
  "write_loop c b boff =
     (if length b - boff = 0 then Inr (c, boff, None)
      else if vecoffset c = length (vecs c) then Inr (c, boff, Some OutOfBufferSpace)
      else if \<not> vecoffset c < length (vecs c) then Inl IndexOutOfRange
      else if \<not> offset c \<le> length (vecs c ! vecoffset c) then Inl SliceBoundsOutOfRange
      else
        let v = vecs c ! vecoffset c;
            wrote = min (length v - offset c) (length b - boff);
            c1 = c\<lparr>vecs := (vecs c)[vecoffset c := copy_into v (offset c) (drop boff b)],
                   offset := offset c + wrote\<rparr>;
            c2 = (if offset c1 = length v then c1\<lparr>vecoffset := vecoffset c1 + 1, offset := 0\<rparr>
                  else c1)
        in write_loop c2 b (boff + wrote))"
  by pat_completeness auto
termination
  by (relation "measure (\<lambda>(c, b, boff).
        2 * (length (vecs c) - vecoffset c) + (if length b - boff = 0 then 0 else 1))")
     (auto simp: Let_def min_def split: if_splits)

declare write_loop.simps [simp del]

definition Write :: "SCSICmd \<Rightarrow> byte list \<Rightarrow> panic + (SCSICmd \<times> nat \<times> go_error option)" where
  "Write c b = write_loop c b 0"

text \<open>
  The loop of \<^verbatim>\<open>SCSICmd.Read\<close>, which fills the caller's buffer \<open>b\<close>; the result
  also carries the buffer as the loop leaves it.
\<close>

function read_loop :: "SCSICmd \<Rightarrow> byte list \<Rightarrow> nat \<Rightarrow> panic + (SCSICmd \<times> byte list \<times> nat \<times> go_error option)" where
  "read_loop c b boff =
     (if length b - boff = 0 then Inr (c, b, boff, None)
      else if vecoffset c = length (vecs c) then Inr (c, b, boff, Some EOF)
      else if \<not> vecoffset c < length (vecs c) then Inl IndexOutOfRange
      else if \<not> offset c \<le> length (vecs c ! vecoffset c) then Inl SliceBoundsOutOfRange
      else
        let v = vecs c ! vecoffset c;
            read = min (length b - boff) (length v - offset c);
            b1 = copy_into b boff (drop (offset c) v);
            c1 = c\<lparr>offset := offset c + read\<rparr>;
            c2 = (if offset c1 = length v then c1\<lparr>vecoffset := vecoffset c1 + 1, offset := 0\<rparr>
                  else c1)
        in read_loop c2 b1 (boff + read))"
  by pat_completeness auto
termination
  by (relation "measure (\<lambda>(c, b, boff).
        2 * (length (vecs c) - vecoffset c) + (if length b - boff = 0 then 0 else 1))")
     (auto simp: Let_def min_def copy_into_def split: if_splits)

declare read_loop.simps [simp del]

definition Read :: "SCSICmd \<Rightarrow> byte list \<Rightarrow> panic + (SCSICmd \<times> byte list \<times> nat \<times> go_error option)" where
  "Read c b = read_loop c b 0"

text \<open>
  The cursor as a position in the concatenation of the vecs, the bytes left after it,
  and the cursors on which neither loop panics.
\<close>

definition pos :: "SCSICmd \<Rightarrow> nat" where
  "pos c = length (concat (take (vecoffset c) (vecs c))) + offset c"

definition remaining :: "SCSICmd \<Rightarrow> nat" where
  "remaining c = length (concat (vecs c)) - pos c"

definition cursor_ok :: "SCSICmd \<Rightarrow> bool" where
  "cursor_ok c \<longleftrightarrow>
     vecoffset c \<le> length (vecs c) \<and>
     (if vecoffset c < length (vecs c) then offset c \<le> length (vecs c ! vecoffset c)
      else offset c = 0)"

text \<open>\<open>overlay xs p ys\<close> is \<open>xs\<close> with the bytes from position \<open>p\<close> on replaced by \<open>ys\<close>.\<close>

definition overlay :: "'a list \<Rightarrow> nat \<Rightarrow> 'a list \<Rightarrow> 'a list" where
  "overlay xs p ys = take p xs @ ys @ drop (p + length ys) xs"

section \<open>The device and its memory-mapped mailbox\<close>

text \<open>
  The ring is modelled for the 32-bit \<^verbatim>\<open>arm\<close> build, whose offset table
  (\<^verbatim>\<open>offsets_32bit_pad.go\<close>) is the one in the source: Go's \<^verbatim>\<open>int\<close>,
  \<^verbatim>\<open>uintptr\<close> and the two fields of \<^verbatim>\<open>syscall.Iovec\<close> are 32 bits wide, and the
  host is little-endian. A Go \<^verbatim>\<open>int\<close> is a \<open>32 word\<close> read through \<open>sint\<close>, so
  that \<^verbatim>\<open>int(x)\<close> of a \<^verbatim>\<open>uint32\<close> and \<^verbatim>\<open>uint32(i)\<close> of an \<^verbatim>\<open>int\<close> keep the
  bits, and offset arithmetic wraps as it does in Go.

  \<open>mmap\<close> is the shared region, \<open>cmdTail\<close> the reader's local tail, and \<open>uioWrites\<close>
  the buffers written so far to the userspace-I/O file descriptor.
\<close>

type_synonym goint = "32 word"

record Device =
  scsi :: SCSIHandler
  mmap :: "byte list"
  cmdTail :: "32 word"
  uioWrites :: "byte list list"

definition offLenOp :: goint where "offLenOp = 0"
definition offCmdId :: goint where "offCmdId = 4"
definition offKFlags :: goint where "offKFlags = 6"
definition offUFlags :: goint where "offUFlags = 7"
definition entReqRespOff :: goint where "entReqRespOff = 8"
definition offReqIovCnt :: goint where "offReqIovCnt = entReqRespOff + 0"
definition offReqIovBidiCnt :: goint where "offReqIovBidiCnt = entReqRespOff + 4"
definition offReqIovDifCnt :: goint where "offReqIovDifCnt = entReqRespOff + 8"
definition offReqCdbOff :: goint where "offReqCdbOff = entReqRespOff + 16"
definition iovSize :: nat where "iovSize = 8"
definition offReqIov0Base :: goint where "offReqIov0Base = entReqRespOff + 40"
definition offReqIov0Len :: goint where "offReqIov0Len = entReqRespOff + 44"
definition offRespSCSIStatus :: goint where "offRespSCSIStatus = entReqRespOff + 0"
definition offRespSense :: goint where "offRespSense = entReqRespOff + 8"

definition tcmuSenseBufferSize :: nat where "tcmuSenseBufferSize = 96"

definition tcmuOpPad :: nat where "tcmuOpPad = 0"
definition tcmuOpCmd :: nat where "tcmuOpCmd = 1"

text \<open>Host-endian (little-endian) integers.\<close>

definition le_bytes :: "byte list \<Rightarrow> 'a::len word" where
  "le_bytes bs = be_bytes (rev bs)"

definition le_put :: "nat \<Rightarrow> 'a::len word \<Rightarrow> byte list" where
  "le_put n w = rev (be_put n w)"

text \<open>
  \<open>mm_index\<close> is \<^verbatim>\<open>d.mmap[i]\<close> and \<open>mm_slice\<close> is \<^verbatim>\<open>d.mmap[lo:hi]\<close>, with Go's
  bounds checks. \<open>peek m i n\<close> is the load \<^verbatim>\<open>*(*T)(unsafe.Pointer(&d.mmap[i]))\<close> of
  an \<open>n\<close>-byte \<open>T\<close> and \<open>poke\<close> the store: the index expression is bounds-checked, the
  access itself is not, and an access that would reach beyond the mapping is the fault
  \<open>OutsideMmap\<close>.
\<close>

definition in_range :: "byte list \<Rightarrow> goint \<Rightarrow> bool" where
  "in_range m i \<longleftrightarrow> 0 \<le> sint i \<and> nat (sint i) < length m"

definition mm_index :: "byte list \<Rightarrow> goint \<Rightarrow> panic + byte" where
  "mm_index m i = (if in_range m i then Inr (m ! nat (sint i)) else Inl IndexOutOfRange)"

definition mm_slice :: "byte list \<Rightarrow> goint \<Rightarrow> goint \<Rightarrow> panic + byte list" where
  "mm_slice m lo hi =
     (if 0 \<le> sint lo \<and> sint lo \<le> sint hi \<and> nat (sint hi) \<le> length m
      then Inr (take (nat (sint hi) - nat (sint lo)) (drop (nat (sint lo)) m))
      else Inl SliceBoundsOutOfRange)"

definition peek :: "byte list \<Rightarrow> goint \<Rightarrow> nat \<Rightarrow> panic + byte list" where
  "peek m i n =
     (if \<not> in_range m i then Inl IndexOutOfRange
      else if length m < nat (sint i) + n then Inl OutsideMmap
      else Inr (take n (drop (nat (sint i)) m)))"

definition poke :: "byte list \<Rightarrow> goint \<Rightarrow> byte list \<Rightarrow> panic + byte list" where
  "poke m i bs =
     (if \<not> in_range m i then Inl IndexOutOfRange
      else if length m < nat (sint i) + length bs then Inl OutsideMmap
      else Inr (overlay m (nat (sint i)) bs))"

subsection \<open>The mailbox\<close>

definition mbCmdrOffset :: "Device \<Rightarrow> panic + 32 word" where
  "mbCmdrOffset d = bnd (peek (mmap d) 4 4) (\<lambda>bs. Inr (le_bytes bs))"

definition mbCmdrSize :: "Device \<Rightarrow> panic + 32 word" where
  "mbCmdrSize d = bnd (peek (mmap d) 8 4) (\<lambda>bs. Inr (le_bytes bs))"

definition mbCmdHead :: "Device \<Rightarrow> panic + 32 word" where
  "mbCmdHead d = bnd (peek (mmap d) 12 4) (\<lambda>bs. Inr (le_bytes bs))"

definition mbCmdTail :: "Device \<Rightarrow> panic + 32 word" where
  "mbCmdTail d = bnd (peek (mmap d) 64 4) (\<lambda>bs. Inr (le_bytes bs))"

text \<open>
  \<^verbatim>\<open>byteOrder.PutUint32(d.mmap[64:], u)\<close>: the slice expression panics on a mapping
  shorter than 64 bytes, \<^verbatim>\<open>PutUint32\<close> on a slice shorter than 4.
\<close>

definition mbSetTail :: "Device \<Rightarrow> 32 word \<Rightarrow> panic + Device" where
  "mbSetTail d u =
     (if length (mmap d) < 64 then Inl SliceBoundsOutOfRange
      else if length (mmap d) - 64 < 4 then Inl IndexOutOfRange
      else Inr (d\<lparr>mmap := overlay (mmap d) 64 (le_put 4 u)\<rparr>))"

subsection \<open>Entry headers, requests and responses\<close>

definition entHdrOp :: "Device \<Rightarrow> goint \<Rightarrow> panic + nat" where
  "entHdrOp d off =
     bnd (peek (mmap d) (off + offLenOp) 4) (\<lambda>bs. Inr (unat ((le_bytes bs :: 32 word) AND 0x7)))"

definition entHdrGetLen :: "Device \<Rightarrow> goint \<Rightarrow> panic + goint" where
  "entHdrGetLen d off =
     bnd (peek (mmap d) (off + offLenOp) 4) (\<lambda>bs. Inr ((le_bytes bs :: 32 word) AND NOT 0x7))"

definition entCmdId :: "Device \<Rightarrow> goint \<Rightarrow> panic + 16 word" where
  "entCmdId d off = bnd (peek (mmap d) (off + offCmdId) 2) (\<lambda>bs. Inr (le_bytes bs))"

definition setEntCmdId :: "Device \<Rightarrow> goint \<Rightarrow> 16 word \<Rightarrow> panic + Device" where
  "setEntCmdId d off i =
     bnd (poke (mmap d) (off + offCmdId) (le_put 2 i)) (\<lambda>m. Inr (d\<lparr>mmap := m\<rparr>))"

definition entReqIovCnt :: "Device \<Rightarrow> goint \<Rightarrow> panic + 32 word" where
  "entReqIovCnt d off = bnd (peek (mmap d) (off + offReqIovCnt) 4) (\<lambda>bs. Inr (le_bytes bs))"

definition entReqCdbOff :: "Device \<Rightarrow> goint \<Rightarrow> panic + 64 word" where
  "entReqCdbOff d off = bnd (peek (mmap d) (off + offReqCdbOff) 8) (\<lambda>bs. Inr (le_bytes bs))"

definition setEntRespSCSIStatus :: "Device \<Rightarrow> goint \<Rightarrow> byte \<Rightarrow> panic + Device" where
  "setEntRespSCSIStatus d off st =
     (if in_range (mmap d) (off + offRespSCSIStatus)
      then Inr (d\<lparr>mmap := (mmap d)[nat (sint (off + offRespSCSIStatus)) := st]\<rparr>)
      else Inl IndexOutOfRange)"

definition copyEntRespSenseData :: "Device \<Rightarrow> goint \<Rightarrow> byte list \<Rightarrow> panic + Device" where
  "copyEntRespSenseData d off dat =
     (let lo = off + offRespSense;
          hi = off + offRespSense + of_nat tcmuSenseBufferSize
      in bnd (mm_slice (mmap d) lo hi) (\<lambda>buf.
           let buf = copy_into buf 0 dat;
               buf = (if length dat < tcmuSenseBufferSize
                      then overlay buf (length dat) (replicate (tcmuSenseBufferSize - length dat) 0)
                      else buf)
           in Inr (d\<lparr>mmap := overlay (mmap d) (nat (sint lo)) buf\<rparr>)))"

text \<open>
  \<^verbatim>\<open>entIovecN\<close> loads the \<open>idx\<close>-th iovec (base and length, 4 bytes each) from behind
  the bounds-checked address of the first one, and slices the mapping with it.
\<close>

definition entIovecN :: "Device \<Rightarrow> goint \<Rightarrow> nat \<Rightarrow> panic + byte list" where
  "entIovecN d off idx =
     (if \<not> in_range (mmap d) (off + offReqIov0Base) then Inl IndexOutOfRange
      else
        let a = nat (sint (off + offReqIov0Base)) + idx * iovSize
        in if length (mmap d) < a + iovSize then Inl OutsideMmap
           else
             let moff = (le_bytes (take 4 (drop a (mmap d))) :: goint);
                 len = (le_bytes (take 4 (drop (a + 4) (mmap d))) :: 32 word)
             in mm_slice (mmap d) moff (moff + len))"

definition cdbLen :: "Device \<Rightarrow> goint \<Rightarrow> panic + nat" where
  "cdbLen d cdbStart =
     bnd (mm_index (mmap d) cdbStart) (\<lambda>opcode.
       if opcode \<le> 0x1f then Inr 6
       else if opcode \<le> 0x5f then Inr 10
       else if opcode = 0x7f then bnd (mm_index (mmap d) (cdbStart + 7)) (\<lambda>b. Inr (unat b + 8))
       else if opcode \<ge> 0x80 \<and> opcode \<le> 0x9f then Inr 16
       else if opcode \<ge> 0xa0 \<and> opcode \<le> 0xbf then Inr 12
       else Inl (WhatOpcodeIs opcode))"

definition entCdb :: "Device \<Rightarrow> goint \<Rightarrow> panic + byte list" where
  "entCdb d off =
     bnd (entReqCdbOff d off) (\<lambda>co.
       let cdbStart = (ucast co :: goint)
       in bnd (cdbLen d cdbStart) (\<lambda>len.
            mm_slice (mmap d) cdbStart (cdbStart + of_nat len)))"

subsection \<open>Ring positions\<close>

definition nextEntryOff :: "Device \<Rightarrow> panic + goint" where
  "nextEntryOff d = bnd (mbCmdrOffset d) (\<lambda>ro. Inr (cmdTail d + ro))"

definition headEntryOff :: "Device \<Rightarrow> panic + goint" where
  "headEntryOff d = bnd (mbCmdHead d) (\<lambda>h. bnd (mbCmdrOffset d) (\<lambda>ro. Inr (h + ro)))"

definition tailEntryOff :: "Device \<Rightarrow> panic + goint" where
  "tailEntryOff d = bnd (mbCmdTail d) (\<lambda>t. bnd (mbCmdrOffset d) (\<lambda>ro. Inr (t + ro)))"

text \<open>\<^verbatim>\<open>(t + uint32(d.entHdrGetLen(off))) % d.mbCmdrSize()\<close>, which panics on a zero size.\<close>

definition tail_after :: "Device \<Rightarrow> 32 word \<Rightarrow> goint \<Rightarrow> panic + 32 word" where
  "tail_after d t off =
     bnd (entHdrGetLen d off) (\<lambda>l.
       bnd (mbCmdrSize d) (\<lambda>sz.
         if sz = 0 then Inl IntegerDivideByZero else Inr ((t + l) mod sz)))"

section \<open>Constants of the scsi package\<close>

definition TestUnitReady :: byte where "TestUnitReady = 0x00"
definition Read6 :: byte where "Read6 = 0x08"
definition Write6 :: byte where "Write6 = 0x0a"
definition Inquiry :: byte where "Inquiry = 0x12"
definition ModeSelect :: byte where "ModeSelect = 0x15"
definition ModeSense :: byte where "ModeSense = 0x1a"
definition Read10 :: byte where "Read10 = 0x28"
definition Write10 :: byte where "Write10 = 0x2a"
definition ModeSelect10 :: byte where "ModeSelect10 = 0x55"
definition ModeSense10 :: byte where "ModeSense10 = 0x5a"
definition Read12 :: byte where "Read12 = 0xa8"
definition Write12 :: byte where "Write12 = 0xaa"
definition Read16 :: byte where "Read16 = 0x88"
definition Write16 :: byte where "Write16 = 0x8a"
definition ServiceActionIn16 :: byte where "ServiceActionIn16 = 0x9e"
definition ReadCapacity16 :: byte where "ReadCapacity16 = 0x10"

definition SamStatGood :: byte where "SamStatGood = 0x00"
definition SamStatCheckCondition :: byte where "SamStatCheckCondition = 0x02"

definition AscReadError :: "16 word" where "AscReadError = 0x1100"
definition AscParameterListLengthError :: "16 word" where "AscParameterListLengthError = 0x1a00"
definition AscInternalTargetFailure :: "16 word" where "AscInternalTargetFailure = 0x4400"
definition AscInvalidFieldInCdb :: "16 word" where "AscInvalidFieldInCdb = 0x2400"
definition AscInvalidFieldInParameterList :: "16 word" where "AscInvalidFieldInParameterList = 0x2600"

definition SenseMediumError :: byte where "SenseMediumError = 0x03"
definition SenseHardwareError :: byte where "SenseHardwareError = 0x04"
definition SenseIllegalRequest :: byte where "SenseIllegalRequest = 0x05"

section \<open>Building responses\<close>

definition Ok :: "SCSICmd \<Rightarrow> SCSIResponse" where
  "Ok c = \<lparr>id_resp = id_cmd c, status = SamStatGood, senseBuffer = []\<rparr>"

definition RespondStatus :: "SCSICmd \<Rightarrow> byte \<Rightarrow> SCSIResponse" where
  "RespondStatus c st = \<lparr>id_resp = id_cmd c, status = st, senseBuffer = []\<rparr>"

definition RespondSenseData :: "SCSICmd \<Rightarrow> byte \<Rightarrow> byte list \<Rightarrow> SCSIResponse" where
  "RespondSenseData c st sense = \<lparr>id_resp = id_cmd c, status = st, senseBuffer = sense\<rparr>"

definition NotHandled :: "SCSICmd \<Rightarrow> SCSIResponse" where
  "NotHandled c =
     (let buf = (replicate tcmuSenseBufferSize 0)
                  [0 := 0x70, 2 := 0x5, 7 := 0xa, 12 := 0x20, 13 := 0x0]
      in \<lparr>id_resp = id_cmd c, status = SamStatCheckCondition, senseBuffer = buf\<rparr>)"

definition CheckCondition :: "SCSICmd \<Rightarrow> byte \<Rightarrow> 16 word \<Rightarrow> SCSIResponse" where
  "CheckCondition c key asc =
     (let buf = (replicate tcmuSenseBufferSize 0)
                  [0 := 0x70, 2 := key, 7 := 0xa,
                   12 := ucast (drop_bit 8 asc AND 0xff),
                   13 := ucast (asc AND 0xff)]
      in \<lparr>id_resp = id_cmd c, status = SamStatCheckCondition, senseBuffer = buf\<rparr>)"

definition MediumError :: "SCSICmd \<Rightarrow> SCSIResponse" where
  "MediumError c = CheckCondition c SenseMediumError AscReadError"

definition IllegalRequest :: "SCSICmd \<Rightarrow> SCSIResponse" where
  "IllegalRequest c = CheckCondition c SenseIllegalRequest AscInvalidFieldInCdb"

definition TargetFailure :: "SCSICmd \<Rightarrow> SCSIResponse" where
  "TargetFailure c = CheckCondition c SenseHardwareError AscInternalTargetFailure"

text \<open>The zero value \<^verbatim>\<open>SCSIResponse{}\<close>, returned next to a Go error.\<close>

definition emptyResponse :: SCSIResponse where
  "emptyResponse = \<lparr>id_resp = 0, status = 0, senseBuffer = []\<rparr>"

section \<open>The emulation functions of the command handler\<close>

text \<open>
  An emulation function returns a response and a Go error and may move the command's
  cursor, fill its vecs and replace its scratch buffer: the result is the command as the
  function leaves it, the response and the error. Go's \<^verbatim>\<open>int\<close> is 32 bits wide in
  the build modelled here (see the ring layout above), so \<^verbatim>\<open>int(x)\<close> of a
  \<^verbatim>\<open>uint32\<close> is \<open>sint x\<close>.
\<close>

type_synonym emulated = "panic + (SCSICmd \<times> SCSIResponse \<times> go_error option)"

record InquiryInfo =
  VendorID :: string
  ProductID :: string
  ProductRev :: string

definition defaultInquiry :: InquiryInfo where
  "defaultInquiry = \<lparr>VendorID = ''go-tcmu'', ProductID = ''TCMU Device'', ProductRev = ''0001''\<rparr>"

definition FixedString :: "string \<Rightarrow> nat \<Rightarrow> byte list" where
  "FixedString s n =
     (let p = bytes s; l = length p
      in if l \<ge> n then take n p else p @ replicate (n - l) 0x20)"

text \<open>\<open>copy_range dst lo hi src\<close> is \<^verbatim>\<open>copy(dst[lo:hi], src)\<close> for \<open>lo \<le> hi \<le> length dst\<close>.\<close>

definition copy_range :: "byte list \<Rightarrow> nat \<Rightarrow> nat \<Rightarrow> byte list \<Rightarrow> byte list" where
  "copy_range dst lo hi src =
     (let n = min (hi - lo) (length src)
      in take lo dst @ take n src @ drop (lo + n) dst)"

definition EmulateStdInquiry :: "SCSICmd \<Rightarrow> InquiryInfo \<Rightarrow> emulated" where
  "EmulateStdInquiry c inq =
     (let buf = (replicate 36 0)[2 := 0x05, 3 := 0x02, 7 := 0x02];
          vendorID = FixedString (VendorID inq) 8;
          buf = copy_range buf 8 16 vendorID;
          productID = FixedString (ProductID inq) 16;
          buf = copy_range buf 16 32 productID;
          productRev = FixedString (ProductRev inq) 4;
          buf = copy_range buf 32 36 productRev;
          buf = buf[4 := 31]
      in bnd (Write c buf) (\<lambda>(c', n, err).
           case err of
             Some e \<Rightarrow> Inr (c', emptyResponse, Some e)
           | None \<Rightarrow> Inr (c', Ok c', None)))"

definition charToHex :: "byte \<Rightarrow> byte option" where
  "charToHex c =
     (if c \<ge> 0x30 \<and> c \<le> 0x39 then Some (c - 0x30)
      else if c \<ge> 0x61 \<and> c \<le> 0x66 then Some (c - 0x61 + 10)
      else if c \<ge> 0x41 \<and> c \<le> 0x46 then Some (c - 0x41 + 10)
      else None)"

text \<open>
  The loop over the WWN characters in the device identification page; \<open>ptr\<close> is
  \<^verbatim>\<open>data[used:]\<close>, so it is \<open>data\<close> with the base \<open>used\<close>.
\<close>

fun naa_fill :: "byte list \<Rightarrow> nat \<Rightarrow> byte list \<Rightarrow> bool \<Rightarrow> nat \<Rightarrow> byte list" where
  "naa_fill data used [] nxt i = data"
| "naa_fill data used (x # wwn) nxt i =
     (if i \<ge> 20 then data
      else case charToHex x of
        None \<Rightarrow> naa_fill data used wwn nxt i
      | Some v \<Rightarrow>
          if nxt then naa_fill (data[used + i := (data ! (used + i)) OR v]) used wwn False (i + 1)
          else naa_fill (data[used + i := push_bit 4 v]) used wwn True i)"

definition EmulateEvpdInquiry :: "SCSICmd \<Rightarrow> InquiryInfo \<Rightarrow> emulated" where
  "EmulateEvpdInquiry c inq =
     bnd (GetCDB c 2) (\<lambda>vpdType.
       if vpdType = 0x0 then
         (let data = (replicate 6 0)[3 := 2, 4 := 0x00, 5 := 0x83]
          in bnd (Write c data) (\<lambda>(c', n, err). Inr (c', Ok c', None)))
       else if vpdType = 0x83 then
         (let used = 4;
              data = (replicate 512 0)[1 := 0x83];
              wwn = [];
              data = data[used + 0 := 2, used + 1 := 1];
              data = copy_into data (used + 4) (FixedString (VendorID inq) 8);
              n = min (length data - (used + 12)) (length wwn);
              data = copy_into data (used + 12) wwn;
              data = data[used + 3 := of_nat (8 + n + 1)];
              used = used + unat (data ! (used + 3)) + 4;
              data = data[used + 0 := 1, used + 1 := 3, used + 3 := 16,
                          used + 4 := 0x60, used + 5 := 0x01, used + 6 := 0x40, used + 7 := 0x50];
              data = naa_fill data used wwn True 7;
              used = used + 20;
              data = data[used + 0 := 2, used + 1 := 0];
              cfgString = GetDevConfig (device c);
              n = min (length data - (used + 4)) (length (bytes cfgString));
              data = copy_into data (used + 4) (bytes cfgString);
              data = data[used + 3 := of_nat (n + 1)];
              used = used + n + 1 + 4;
              data = overlay data 2 (be_put 2 (of_nat (used - 4) :: 16 word))
          in bnd (slice data 0 used) (\<lambda>out.
               bnd (Write c out) (\<lambda>(c', n, err). Inr (c', Ok c', None))))
       else Inr (c, IllegalRequest c, None))"

definition EmulateInquiry :: "SCSICmd \<Rightarrow> InquiryInfo \<Rightarrow> emulated" where
  "EmulateInquiry c inq =
     bnd (GetCDB c 1) (\<lambda>b1.
       if b1 AND 0x01 = 0 then
         bnd (GetCDB c 2) (\<lambda>b2.
           if b2 = 0x00 then EmulateStdInquiry c inq
           else Inr (c, IllegalRequest c, None))
       else EmulateEvpdInquiry c inq)"

definition EmulateTestUnitReady :: "SCSICmd \<Rightarrow> emulated" where
  "EmulateTestUnitReady c = Inr (c, Ok c, None)"

text \<open>
  \<^verbatim>\<open>VolumeSize/BlockSize\<close> is a division of two \<^verbatim>\<open>int64\<close>: it truncates towards
  zero and panics on a zero divisor. The quotient is converted to \<^verbatim>\<open>uint64\<close> before
  1 is subtracted, and \<^verbatim>\<open>uint32(BlockSize)\<close> keeps the low 32 bits.
\<close>

definition EmulateReadCapacity16 :: "SCSICmd \<Rightarrow> emulated" where
  "EmulateReadCapacity16 c =
     (let sz = Sizes (device c)
      in if BlockSize sz = 0 then Inl IntegerDivideByZero
         else
           let buf = replicate 32 0;
               buf = overlay buf 0
                       (be_put 8 ((word_of_int (sint (VolumeSize sz) sdiv sint (BlockSize sz)) :: 64 word) - 1));
               buf = overlay buf 8 (be_put 4 (ucast (BlockSize sz) :: 32 word))
           in bnd (Write c buf) (\<lambda>(c', n, err). Inr (c', Ok c', None)))"

definition EmulateServiceActionIn :: "SCSICmd \<Rightarrow> emulated" where
  "EmulateServiceActionIn c =
     bnd (GetCDB c 1) (\<lambda>b1.
       if b1 = ReadCapacity16 then EmulateReadCapacity16 c
       else Inr (c, NotHandled c, None))"

text \<open>\<^verbatim>\<open>CachingModePage(w, wce)\<close> appends the page to the buffer \<open>w\<close>.\<close>

definition CachingModePage :: "byte list \<Rightarrow> bool \<Rightarrow> byte list" where
  "CachingModePage w wce =
     (let buf = (replicate 20 0)[0 := 0x08, 1 := 0x12];
          buf = (if wce then buf[2 := (buf ! 2) OR 0x04] else buf)
      in w @ buf)"

definition EmulateModeSense :: "SCSICmd \<Rightarrow> bool \<Rightarrow> emulated" where
  "EmulateModeSense c wce =
     bnd (XferLen c) (\<lambda>x.
       let outlen = sint x
       in bnd (GetCDB c 2) (\<lambda>page.
            let pgs = (if page = 0x3f \<or> page = 0x08 then CachingModePage [] wce else [])
            in bnd (Command c) (\<lambda>scsiCmd.
                 let dsp = 0x10;
                     pgdata = pgs;
                     hdr = (if scsiCmd = ModeSense
                            then (replicate 4 0)[0 := of_nat (length pgdata + 3), 1 := 0x00, 2 := dsp]
                            else (overlay (replicate 8 0) 0
                                    (be_put 2 (of_nat (length pgdata + 6) :: 16 word)))
                                 [2 := 0x00, 3 := dsp]);
                     data = hdr @ pgdata
                 in bnd (if outlen < int (length data)
                         then (if outlen < 0 then Inl SliceBoundsOutOfRange
                               else Inr (take (nat outlen) data))
                         else Inr data) (\<lambda>data.
                      bnd (Write c data) (\<lambda>(c', n, err). Inr (c', Ok c', None))))))"

definition EmulateModeSelect :: "SCSICmd \<Rightarrow> bool \<Rightarrow> emulated" where
  "EmulateModeSelect c wce =
     bnd (GetCDB c 0) (\<lambda>b0.
       let selectTen = (b0 = ModeSelect10)
       in bnd (GetCDB c 2) (\<lambda>b2.
            let page = b2 AND 0x3f
            in bnd (GetCDB c 3) (\<lambda>subpage.
                 bnd (XferLen c) (\<lambda>allocLen.
                   let hdrLen = (if selectTen then 8 else 4);
                       inBuf = replicate 512 0
                   in if allocLen = 0 then Inr (c, Ok c, None)
                      else
                        bnd (Read c inBuf) (\<lambda>(c, inBuf, n, err).
                          case err of
                            Some e \<Rightarrow> Inr (c, emptyResponse, Some e)
                          | None \<Rightarrow>
                              if n \<ge> length inBuf
                              then Inr (c, CheckCondition c SenseIllegalRequest AscParameterListLengthError, None)
                              else
                                bnd (GetCDB c 1) (\<lambda>cdbone.
                                  if cdbone AND 0x10 = 0 \<or> cdbone AND 0x01 \<noteq> 0
                                  then Inr (c, IllegalRequest c, None)
                                  else
                                    let gotSense = (page = 0x08 \<and> subpage = 0);
                                        pgs = (if gotSense then CachingModePage [] wce else [])
                                    in if \<not> gotSense then Inr (c, IllegalRequest c, None)
                                       else
                                         let b = pgs
                                         in if sint allocLen < int (hdrLen + length b)
                                            then Inr (c, CheckCondition c SenseIllegalRequest
                                                           AscParameterListLengthError, None)
                                            else
                                              bnd (slice inBuf hdrLen (length b)) (\<lambda>s.
                                                if s \<noteq> b
                                                then Inr (c, CheckCondition c SenseIllegalRequest
                                                               AscInvalidFieldInParameterList, None)
                                                else Inr (c, Ok c, None))))))))"

text \<open>
  The backend is any value with positional read and write. \<open>ReadAt s n off\<close> gives the
  bytes read for a buffer of length \<open>n\<close> (the count returned is their number) and
  whether an error was returned; \<open>WriteAt s p off\<close> gives the backend after the write,
  the count and whether an error was returned. The scratch buffer \<^verbatim>\<open>cmd.Buf\<close> is a
  byte list, \<open>[]\<close> standing for \<^verbatim>\<open>nil\<close>.
\<close>

record 's ReadWriterAt =
  ReadAt :: "'s \<Rightarrow> nat \<Rightarrow> 64 word \<Rightarrow> byte list \<times> bool"
  WriteAt :: "'s \<Rightarrow> byte list \<Rightarrow> 64 word \<Rightarrow> 's \<times> nat \<times> bool"

text \<open>The allocation of the scratch buffer shared by \<^verbatim>\<open>EmulateRead\<close> and \<^verbatim>\<open>EmulateWrite\<close>.\<close>

definition scratch_buf :: "SCSICmd \<Rightarrow> int \<Rightarrow> panic + byte list" where
  "scratch_buf c len =
     bnd (if Buf c = []
          then (if len < 0 then Inl MakeSliceLenOutOfRange else Inr (replicate (nat len) 0))
          else Inr (Buf c)) (\<lambda>buf.
       let buf = (if int (length buf) < len then replicate (nat len) 0 else buf)
       in if len < 0 then Inl SliceBoundsOutOfRange else Inr buf)"

definition EmulateRead :: "SCSICmd \<Rightarrow> 's ReadWriterAt \<Rightarrow> 's \<Rightarrow> panic + (SCSICmd \<times> 's \<times> SCSIResponse \<times> go_error option)" where
  "EmulateRead c r s =
     bnd (LBA c) (\<lambda>lba.
       let offs = lba * BlockSize (Sizes (device c))
       in bnd (XferLen c) (\<lambda>x.
            let len = sint (x * (ucast (BlockSize (Sizes (device c))) :: 32 word))
            in bnd (scratch_buf c len) (\<lambda>buf.
                 let (dat, err) = ReadAt r s (nat len) offs;
                     dat = take (nat len) dat;
                     n = length dat;
                     buf = overlay buf 0 dat;
                     c = c\<lparr>Buf := buf\<rparr>
                 in if err then Inr (c, s, MediumError c, None)
                    else if int n < len then Inr (c, s, MediumError c, None)
                    else
                      bnd (Write c (take (nat len) buf)) (\<lambda>(c, n, err).
                        if err \<noteq> None then Inr (c, s, MediumError c, None)
                        else if int n < len then Inr (c, s, MediumError c, None)
                        else Inr (c, s, Ok c, None)))))"

definition EmulateWrite :: "SCSICmd \<Rightarrow> 's ReadWriterAt \<Rightarrow> 's \<Rightarrow> panic + (SCSICmd \<times> 's \<times> SCSIResponse \<times> go_error option)" where
  "EmulateWrite c r s =
     bnd (LBA c) (\<lambda>lba.
       let offs = lba * BlockSize (Sizes (device c))
       in bnd (XferLen c) (\<lambda>x.
            let len = sint (x * (ucast (BlockSize (Sizes (device c))) :: 32 word))
            in bnd (scratch_buf c len) (\<lambda>buf.
                 bnd (Read c (take (nat len) buf)) (\<lambda>(c, p, n, err).
                   let buf = overlay buf 0 p;
                       c = c\<lparr>Buf := buf\<rparr>
                   in if err \<noteq> None then Inr (c, s, MediumError c, None)
                      else if int n < len then Inr (c, s, MediumError c, None)
                      else
                        let (s, n, err) = WriteAt r s (take (nat len) buf) offs
                        in if err then Inr (c, s, MediumError c, None)
                           else if int n < len then Inr (c, s, MediumError c, None)
                           else Inr (c, s, Ok c, None)))))"

record 's ReadWriterAtCmdHandler =
  RW :: "'s ReadWriterAt"
  Inq :: "InquiryInfo option"

definition with_backend :: "'s \<Rightarrow> emulated \<Rightarrow> panic + (SCSICmd \<times> 's \<times> SCSIResponse \<times> go_error option)" where
  "with_backend s r = bnd r (\<lambda>(c, resp, err). Inr (c, s, resp, err))"

definition HandleCommand :: "'s ReadWriterAtCmdHandler \<Rightarrow> 's \<Rightarrow> SCSICmd \<Rightarrow> panic + (SCSICmd \<times> 's \<times> SCSIResponse \<times> go_error option)" where
  "HandleCommand h s c =
     bnd (Command c) (\<lambda>op.
       if op = Inquiry then
         with_backend s (EmulateInquiry c (case Inq h of None \<Rightarrow> defaultInquiry | Some inq \<Rightarrow> inq))
       else if op = TestUnitReady then with_backend s (EmulateTestUnitReady c)
       else if op = ServiceActionIn16 then with_backend s (EmulateServiceActionIn c)
       else if op = ModeSense \<or> op = ModeSense10 then with_backend s (EmulateModeSense c False)
       else if op = ModeSelect \<or> op = ModeSelect10 then with_backend s (EmulateModeSelect c False)
       else if op = Read6 \<or> op = Read10 \<or> op = Read12 \<or> op = Read16 then EmulateRead c (RW h) s
       else if op = Write6 \<or> op = Write10 \<or> op = Write12 \<or> op = Write16 then EmulateWrite c (RW h) s
       else Inr (c, s, NotHandled c, None))"

section \<open>Completing and fetching commands\<close>

text \<open>
  The loops over ring entries end only if the entries let them, so they are partial
  functions: \<open>None\<close> is a loop that runs forever, \<open>Some (Inl p)\<close> a panic, and
  \<open>Some (Inr r)\<close> a normal return.

  \<open>skip_body\<close> is the body of the first loop of \<^verbatim>\<open>completeCommand\<close>: it moves the
  shared tail past the entry at \<open>off\<close> and recomputes \<open>off\<close>.
\<close>

definition skip_body :: "Device \<Rightarrow> goint \<Rightarrow> panic + (Device \<times> goint)" where
  "skip_body d off =
     bnd (mbCmdTail d) (\<lambda>t.
       bnd (tail_after d t off) (\<lambda>t'.
         bnd (mbSetTail d t') (\<lambda>d.
           bnd (tailEntryOff d) (\<lambda>off. Inr (d, off)))))"

partial_function (option) skip_loop :: "Device \<Rightarrow> goint \<Rightarrow> (panic + (Device \<times> goint)) option" where
  "skip_loop d off =
     (case entHdrOp d off of
        Inl e \<Rightarrow> Some (Inl e)
      | Inr op \<Rightarrow>
          if op \<noteq> tcmuOpCmd then
            (case skip_body d off of
               Inl e \<Rightarrow> Some (Inl e)
             | Inr (d', off') \<Rightarrow> skip_loop d' off')
          else Some (Inr (d, off)))"

text \<open>What \<^verbatim>\<open>completeCommand\<close> does once \<open>off\<close> is at an entry whose opcode is \<open>cmd\<close>.\<close>

definition complete_at :: "Device \<Rightarrow> goint \<Rightarrow> SCSIResponse \<Rightarrow> panic + Device" where
  "complete_at d off resp =
     bnd (entCmdId d off) (\<lambda>i.
       bnd (if i \<noteq> id_resp resp then setEntCmdId d off (id_resp resp) else Inr d) (\<lambda>d.
         bnd (setEntRespSCSIStatus d off (status resp)) (\<lambda>d.
           bnd (if status resp \<noteq> SamStatGood then copyEntRespSenseData d off (senseBuffer resp)
                else Inr d) (\<lambda>d.
             bnd (mbCmdTail d) (\<lambda>t.
               bnd (tail_after d t off) (\<lambda>t'. mbSetTail d t'))))))"

definition completeCommand :: "Device \<Rightarrow> SCSIResponse \<Rightarrow> (panic + Device) option" where
  "completeCommand d resp =
     (case tailEntryOff d of
        Inl e \<Rightarrow> Some (Inl e)
      | Inr off \<Rightarrow>
          (case skip_loop d off of
             None \<Rightarrow> None
           | Some (Inl e) \<Rightarrow> Some (Inl e)
           | Some (Inr (d, off)) \<Rightarrow> Some (complete_at d off resp)))"

text \<open>
  \<^verbatim>\<open>unix.Write(d.uioFd, buf)\<close>, recorded in \<open>uioWrites\<close>; the descriptor is taken to
  accept the write. \<open>recvResponse\<close> runs over the responses that arrive on the channel.
\<close>

definition unix_Write :: "Device \<Rightarrow> byte list \<Rightarrow> Device" where
  "unix_Write d buf = d\<lparr>uioWrites := uioWrites d @ [buf]\<rparr>"

fun recvResponse :: "Device \<Rightarrow> SCSIResponse list \<Rightarrow> (panic + Device) option" where
  "recvResponse d [] = Some (Inr d)"
| "recvResponse d (resp # respChan) =
     (let buf = replicate 4 0
      in case completeCommand d resp of
           None \<Rightarrow> None
         | Some (Inl e) \<Rightarrow> Some (Inl e)
         | Some (Inr d) \<Rightarrow> recvResponse (unix_Write d buf) respChan)"

text \<open>
  \<open>collect\<close> runs a loop \<^verbatim>\<open>for i := 0; i < n; i++\<close> that fills a slice and stops at
  the first panic. \<open>decode_cmd\<close> is the construction of the \<^verbatim>\<open>SCSICmd\<close> in
  \<^verbatim>\<open>getNextCommand\<close>; its CDB and vecs, slices of the mapping in Go, are the bytes
  those slices hold when the command is decoded.
\<close>

fun collect :: "(nat \<Rightarrow> panic + 'a) \<Rightarrow> nat list \<Rightarrow> panic + 'a list" where
  "collect f [] = Inr []"
| "collect f (i # is) = bnd (f i) (\<lambda>x. bnd (collect f is) (\<lambda>xs. Inr (x # xs)))"

definition decode_cmd :: "Device \<Rightarrow> goint \<Rightarrow> panic + SCSICmd" where
  "decode_cmd d off =
     bnd (entCmdId d off) (\<lambda>i.
       bnd (entCdb d off) (\<lambda>cdbs.
         bnd (entReqIovCnt d off) (\<lambda>cnt.
           let vecs = (cnt :: goint)
           in if sint vecs < 0 then Inl MakeSliceLenOutOfRange
              else
                bnd (collect (entIovecN d off) [0..<nat (sint vecs)]) (\<lambda>vs.
                  Inr \<lparr>id_cmd = i, cdb = cdbs, vecs = vs, offset = 0, vecoffset = 0,
                       device = scsi d, Buf = []\<rparr>))))"

partial_function (option) getNextCommand :: "Device \<Rightarrow> (panic + (SCSICmd option \<times> Device)) option" where
  "getNextCommand d =
     (case nextEntryOff d of
        Inl e \<Rightarrow> Some (Inl e)
      | Inr off \<Rightarrow>
          (case headEntryOff d of
             Inl e \<Rightarrow> Some (Inl e)
           | Inr hoff \<Rightarrow>
               if off \<noteq> hoff then
                 (case entHdrOp d off of
                    Inl e \<Rightarrow> Some (Inl e)
                  | Inr op \<Rightarrow>
                      if op = tcmuOpPad then
                        (case tail_after d (cmdTail d) off of
                           Inl e \<Rightarrow> Some (Inl e)
                         | Inr t \<Rightarrow> getNextCommand (d\<lparr>cmdTail := t\<rparr>))
                      else if op = tcmuOpCmd then
                        (case decode_cmd d off of
                           Inl e \<Rightarrow> Some (Inl e)
                         | Inr out \<Rightarrow>
                             (case tail_after d (cmdTail d) off of
                                Inl e \<Rightarrow> Some (Inl e)
                              | Inr t \<Rightarrow> Some (Inr (Some out, d\<lparr>cmdTail := t\<rparr>))))
                      else Some (Inl (UnsupportedCommandFromTcmu op)))
               else Some (Inr (None, d))))"

text \<open>
  The inner loop of \<^verbatim>\<open>beginPoll\<close>: it fetches commands until \<^verbatim>\<open>getNextCommand\<close>
  returns \<^verbatim>\<open>nil\<close>, sending each to the command channel, whose contents are \<open>cmdChan\<close>.
\<close>

partial_function (option) drain :: "Device \<Rightarrow> SCSICmd list \<Rightarrow> (panic + (SCSICmd list \<times> Device)) option" where
  "drain d cmdChan =
     (case getNextCommand d of
        None \<Rightarrow> None
      | Some (Inl e) \<Rightarrow> Some (Inl e)
      | Some (Inr (None, d')) \<Rightarrow> Some (Inr (cmdChan, d'))
      | Some (Inr (Some c, d')) \<Rightarrow> drain d' (cmdChan @ [c]))"

text \<open>The defining equations of the three loops evaluate them on a concrete mapping.\<close>

declare skip_loop.simps [code] getNextCommand.simps [code] drain.simps [code]

section \<open>The handler and the device as the package sets them up\<close>

text \<open>
  \<open>BasicSCSIHandler\<close> has the data of the Go function of that name (1 GiB in blocks of
  1 KiB). \<open>newCmd\<close> is a command as \<^verbatim>\<open>getNextCommand\<close> and the package's tests
  create one: cursor at the start, no scratch buffer. \<open>openDevice\<close> is the state in
  which \<^verbatim>\<open>Device.openDevice\<close> leaves the device after mapping the region: the local
  tail starts as the shared one.
\<close>

definition BasicSCSIHandler :: SCSIHandler where
  "BasicSCSIHandler =
     \<lparr>VolumeName = ''testvol'',
      DataSizes = \<lparr>VolumeSize = 1024 * 1024 * 1024, BlockSize = 1024\<rparr>,
      HBA = 30, LUN = 0\<rparr>"

definition newCmd :: "16 word \<Rightarrow> byte list \<Rightarrow> byte list list \<Rightarrow> SCSIHandler \<Rightarrow> SCSICmd" where
  "newCmd i cdbs vs h =
     \<lparr>id_cmd = i, cdb = cdbs, vecs = vs, offset = 0, vecoffset = 0, device = h, Buf = []\<rparr>"

definition openDevice :: "SCSIHandler \<Rightarrow> byte list \<Rightarrow> panic + Device" where
  "openDevice h m =
     (let d = \<lparr>scsi = h, mmap = m, cmdTail = 0, uioWrites = []\<rparr>
      in bnd (mbCmdTail d) (\<lambda>t. Inr (d\<lparr>cmdTail := t\<rparr>)))"

section \<open>What a ring holds\<close>

text \<open>
  A description of the entries between a tail and the head, against which the loops
  are verified. \<open>Pad l\<close> is a pad entry of \<open>l\<close> bytes, \<open>Cmd l c\<close> a cmd entry of \<open>l\<close>
  bytes that decodes to the command \<open>c\<close>. \<open>ring_holds d t es\<close> says that the entries
  from the tail \<open>t\<close> up to the head of the ring in \<open>d\<close>'s mapping are \<open>es\<close>, each
  found where the previous one ends modulo the ring size. \<open>walk sz t es\<close> is the tail
  after those entries.
\<close>

datatype entry = Pad "32 word" | Cmd "32 word" SCSICmd

fun entry_len :: "entry \<Rightarrow> 32 word" where
  "entry_len (Pad l) = l"
| "entry_len (Cmd l c) = l"

fun is_pad :: "entry \<Rightarrow> bool" where
  "is_pad (Pad l) = True"
| "is_pad (Cmd l c) = False"

fun cmds_of :: "entry list \<Rightarrow> SCSICmd list" where
  "cmds_of [] = []"
| "cmds_of (Pad l # es) = cmds_of es"
| "cmds_of (Cmd l c # es) = c # cmds_of es"

fun entry_at :: "Device \<Rightarrow> goint \<Rightarrow> entry \<Rightarrow> bool" where
  "entry_at d off (Pad l) \<longleftrightarrow> entHdrOp d off = Inr tcmuOpPad \<and> entHdrGetLen d off = Inr l"
| "entry_at d off (Cmd l c) \<longleftrightarrow>
     entHdrOp d off = Inr tcmuOpCmd \<and> entHdrGetLen d off = Inr l \<and> decode_cmd d off = Inr c"

definition walk :: "32 word \<Rightarrow> 32 word \<Rightarrow> entry list \<Rightarrow> 32 word" where
  "walk sz t es = foldl (\<lambda>t e. (t + entry_len e) mod sz) t es"

fun ring_holds :: "Device \<Rightarrow> 32 word \<Rightarrow> entry list \<Rightarrow> bool" where
  "ring_holds d t [] \<longleftrightarrow>
     (case mbCmdrOffset d of Inl p \<Rightarrow> False | Inr ro \<Rightarrow> mbCmdHead d = Inr t)"
| "ring_holds d t (e # es) \<longleftrightarrow>
     (case mbCmdrOffset d of
        Inl p \<Rightarrow> False
      | Inr ro \<Rightarrow>
          (case mbCmdHead d of
             Inl p \<Rightarrow> False
           | Inr h \<Rightarrow>
               (case mbCmdrSize d of
                  Inl p \<Rightarrow> False
                | Inr sz \<Rightarrow>
                    h \<noteq> t \<and> sz \<noteq> 0 \<and> entry_at d (t + ro) e
                    \<and> ring_holds d ((t + entry_len e) mod sz) es)))"

section \<open>An example mapping\<close>

text \<open>
  A 396-byte mapping in the layout above: a mailbox (version 2, ring offset 128, ring
  size 256, head 128, tail 0), a ring that holds a pad entry of 16 bytes, a cmd entry of
  48 bytes (id 7, no iovec, CDB at 384), another pad of 16 and another cmd of 48 (id 8,
  CDB at 390), and behind the ring the two CDBs, a Test Unit Ready and an Inquiry.
\<close>

definition example_pad :: "byte list" where
  "example_pad = [16, 0, 0, 0, 0, 0, 0, 0] @ replicate 8 0"

definition example_cmd :: "byte \<Rightarrow> byte \<Rightarrow> byte list" where
  "example_cmd i cdb_lo =
     [49, 0, 0, 0, i, 0, 0, 0, 0, 0, 0, 0] @ replicate 12 0
     @ [cdb_lo, 1, 0, 0, 0, 0, 0, 0] @ replicate 16 0"

definition example_mmap :: "byte list" where
  "example_mmap =
     [2, 0, 0, 0, 128, 0, 0, 0, 0, 1, 0, 0, 128, 0, 0, 0] @ replicate 48 0
     @ [0, 0, 0, 0] @ replicate 60 0
     @ example_pad @ example_cmd 7 128 @ example_pad @ example_cmd 8 134
     @ replicate 128 0
     @ [0, 0, 0, 0, 0, 0] @ [0x12, 0, 0, 0, 36, 0]"

definition example_device :: Device where
  "example_device = \<lparr>scsi = BasicSCSIHandler, mmap = example_mmap, cmdTail = 0, uioWrites = []\<rparr>"

section \<open>Where the shared tail stands before a completion\<close>

text \<open>
  \<open>tail_skips d t ls\<close> says that, walking from the shared tail \<open>t\<close>, the ring in
  \<open>d\<close>'s mapping holds entries of lengths \<open>ls\<close> whose opcode is not \<open>cmd\<close>, each
  lying behind the mailbox's tail word (which ends at byte 68), and then an entry
  whose opcode is \<open>cmd\<close>. \<open>skip_walk sz t ls\<close> is the tail after the skipped entries.
  \<open>uio_log\<close> reads the buffers written to the file descriptor off a result.
\<close>

definition skip_walk :: "32 word \<Rightarrow> 32 word \<Rightarrow> 32 word list \<Rightarrow> 32 word" where
  "skip_walk sz t ls = foldl (\<lambda>t l. (t + l) mod sz) t ls"

fun tail_skips :: "Device \<Rightarrow> 32 word \<Rightarrow> 32 word list \<Rightarrow> bool" where
  "tail_skips d t [] \<longleftrightarrow>
     (case mbCmdrOffset d of
        Inl p \<Rightarrow> False
      | Inr ro \<Rightarrow> 68 \<le> sint (t + ro) \<and> entHdrOp d (t + ro) = Inr tcmuOpCmd)"
| "tail_skips d t (l # ls) \<longleftrightarrow>
     (case mbCmdrOffset d of
        Inl p \<Rightarrow> False
      | Inr ro \<Rightarrow>
          (case mbCmdrSize d of
             Inl p \<Rightarrow> False
           | Inr sz \<Rightarrow>
               (case entHdrOp d (t + ro) of
                  Inl p \<Rightarrow> False
                | Inr op \<Rightarrow>
                    op \<noteq> tcmuOpCmd \<and> sz \<noteq> 0 \<and> 68 \<le> sint (t + ro)
                    \<and> entHdrGetLen d (t + ro) = Inr l
                    \<and> tail_skips d ((t + l) mod sz) ls)))"

definition uio_log :: "(panic + Device) option \<Rightarrow> byte list list" where
  "uio_log r = (case r of Some (Inr d) \<Rightarrow> uioWrites d | _ \<Rightarrow> [])"

text \<open>
  A second example mapping of 384 bytes: the same mailbox with head 128, and a ring
  that holds a pad entry of 16 bytes and a cmd entry of 112 bytes with id 7.
\<close>

definition example_mmap2 :: "byte list" where
  "example_mmap2 =
     [2, 0, 0, 0, 128, 0, 0, 0, 0, 1, 0, 0, 128, 0, 0, 0] @ replicate 48 0
     @ [0, 0, 0, 0] @ replicate 60 0
     @ example_pad
     @ [113, 0, 0, 0, 7, 0, 0, 0] @ replicate 104 0
     @ replicate 128 0"

definition example_device2 :: Device where
  "example_device2 = \<lparr>scsi = BasicSCSIHandler, mmap = example_mmap2, cmdTail = 0, uioWrites = []\<rparr>"

section \<open>Basic facts about the Go helpers\<close>

lemma bnd_Inr [simp]: "bnd (Inr x) f = f x"
  by (simp add: bnd_def)

lemma bnd_Inl [simp]: "bnd (Inl e) f = Inl e"
  by (simp add: bnd_def)

lemma index_in [simp]: "i < length xs \<Longrightarrow> index xs i = Inr (xs ! i)"
  by (simp add: index_def)

lemma index_out [simp]: "\<not> i < length xs \<Longrightarrow> index xs i = Inl IndexOutOfRange"
  by (simp add: index_def)

section \<open>CDB length\<close>

text \<open>
  C5. The decoded CDB length, as a function of the first CDB byte \<open>b\<close>: 6 for
  \<open>b \<le> 0x1f\<close>, 10 for \<open>0x20 \<le> b \<le> 0x5f\<close>, \<open>8 + cdb[7]\<close> for \<open>b = 0x7f\<close>, 16 for
  \<open>0x80 \<le> b \<le> 0x9f\<close>, 12 for \<open>0xa0 \<le> b \<le> 0xbf\<close>, and the fatal
  "what opcode is" panic for every other byte. Both decoders agree: \<open>CdbLen\<close> on a
  command's CDB and \<open>cdbLen\<close> on the CDB bytes found in the mmap at \<open>cdbStart\<close>
  (byte 7 has to exist for the variable-length opcode, as it does in any such CDB).
\<close>

theorem CdbLen_table:
  assumes "cdb c = b # rest"
    and "length (mmap d) < 2 ^ 31"
    and "0 \<le> sint cdbStart"
    and "drop (nat (sint cdbStart)) (mmap d) = b # rest"
    and "b = 0x7f \<longrightarrow> 7 \<le> length rest"
  shows "(b \<le> 0x1f \<longrightarrow> CdbLen c = Inr 6 \<and> cdbLen d cdbStart = Inr 6)
       \<and> (0x20 \<le> b \<and> b \<le> 0x5f \<longrightarrow> CdbLen c = Inr 10 \<and> cdbLen d cdbStart = Inr 10)
       \<and> (b = 0x7f \<longrightarrow> CdbLen c = Inr (8 + unat (rest ! 6))
                       \<and> cdbLen d cdbStart = Inr (8 + unat (rest ! 6)))
       \<and> (0x80 \<le> b \<and> b \<le> 0x9f \<longrightarrow> CdbLen c = Inr 16 \<and> cdbLen d cdbStart = Inr 16)
       \<and> (0xa0 \<le> b \<and> b \<le> 0xbf \<longrightarrow> CdbLen c = Inr 12 \<and> cdbLen d cdbStart = Inr 12)
       \<and> ((0x60 \<le> b \<and> b \<le> 0x7e) \<or> 0xc0 \<le> b \<longrightarrow>
            CdbLen c = Inl (WhatOpcodeIs b) \<and> cdbLen d cdbStart = Inl (WhatOpcodeIs b))"
proof -
  define s where "s = nat (sint cdbStart)"
  have len: "s < length (mmap d)"
    using assms(4) unfolding s_def by (metis drop_all linorder_not_less list.distinct(1))
  have m0: "mmap d ! s = b"
    using assms(4) len unfolding s_def by (metis hd_drop_conv_nth list.sel(1))
  have i0: "mm_index (mmap d) cdbStart = Inr b"
    using len m0 assms(3) by (simp add: mm_index_def in_range_def s_def)
  have m7: "mm_index (mmap d) (cdbStart + 7) = Inr (rest ! 6)" if "b = 0x7f"
  proof -
    have r: "7 \<le> length rest" using assms(5) that by simp
    have "length (drop s (mmap d)) = Suc (length rest)"
      using assms(4) by (simp add: s_def)
    then have l: "s + 7 < length (mmap d)" using r by simp
    then have "sint cdbStart + 7 < 2 ^ 31"
      using assms(2,3) by (simp add: s_def)
    then have si: "sint (cdbStart + 7) = sint cdbStart + 7"
      using assms(3) by (simp add: signed_take_bit_int_eq_self sint_word_ariths)
    have "mmap d ! (s + 7) = drop s (mmap d) ! 7"
      using l by simp
    also have "\<dots> = rest ! 6" using assms(4) by (simp add: s_def)
    finally show ?thesis
      using l assms(3) by (simp add: mm_index_def in_range_def si s_def nat_add_distrib)
  qed
  have c7: "b = 0x7f \<Longrightarrow> 7 < length (cdb c) \<and> cdb c ! 7 = rest ! 6"
    using assms(1,5) by simp
  show ?thesis
    using assms(1) i0 m7 c7
    by (auto simp: CdbLen_def cdbLen_def word_le_nat_alt)
qed

theorem CdbLen_table_witness:
  "CdbLen (newCmd 1 [0x7f, 0, 0, 0, 0, 0, 0, 4, 0, 0, 0, 0] [] BasicSCSIHandler) = Inr 12
   \<and> cdbLen \<lparr>scsi = BasicSCSIHandler, mmap = [9, 9, 0x7f, 0, 0, 0, 0, 0, 0, 4, 0, 0, 0, 0],
              cmdTail = 0, uioWrites = []\<rparr> 2 = Inr 12
   \<and> CdbLen (newCmd 1 [0x28, 0, 0, 0, 0, 0, 0, 0, 0, 0] [] BasicSCSIHandler) = Inr 10
   \<and> cdbLen \<lparr>scsi = BasicSCSIHandler, mmap = [0x28, 0, 0, 0, 0, 0, 0, 0, 0, 0],
              cmdTail = 0, uioWrites = []\<rparr> 0 = Inr 10
   \<and> CdbLen (newCmd 1 [0x60, 0, 0, 0, 0, 0] [] BasicSCSIHandler) = Inl (WhatOpcodeIs 0x60)
   \<and> cdbLen \<lparr>scsi = BasicSCSIHandler, mmap = [0x60, 0, 0, 0, 0, 0],
              cmdTail = 0, uioWrites = []\<rparr> 0 = Inl (WhatOpcodeIs 0x60)"
proof -
  have v: "CdbLen (newCmd 1 [0x7f, 0, 0, 0, 0, 0, 0, 4, 0, 0, 0, 0] [] BasicSCSIHandler) = Inr 12
     \<and> cdbLen \<lparr>scsi = BasicSCSIHandler, mmap = [9, 9, 0x7f, 0, 0, 0, 0, 0, 0, 4, 0, 0, 0, 0],
              cmdTail = 0, uioWrites = []\<rparr> 2 = Inr 12"
    using CdbLen_table [of "newCmd 1 [0x7f, 0, 0, 0, 0, 0, 0, 4, 0, 0, 0, 0] [] BasicSCSIHandler"
        "0x7f" "[0, 0, 0, 0, 0, 0, 4, 0, 0, 0, 0]"
        "\<lparr>scsi = BasicSCSIHandler, mmap = [9, 9, 0x7f, 0, 0, 0, 0, 0, 0, 4, 0, 0, 0, 0],
              cmdTail = 0, uioWrites = []\<rparr>" 2]
    by (simp add: newCmd_def)
  have t: "CdbLen (newCmd 1 [0x28, 0, 0, 0, 0, 0, 0, 0, 0, 0] [] BasicSCSIHandler) = Inr 10
     \<and> cdbLen \<lparr>scsi = BasicSCSIHandler, mmap = [0x28, 0, 0, 0, 0, 0, 0, 0, 0, 0],
              cmdTail = 0, uioWrites = []\<rparr> 0 = Inr 10"
    using CdbLen_table [of "newCmd 1 [0x28, 0, 0, 0, 0, 0, 0, 0, 0, 0] [] BasicSCSIHandler"
        "0x28" "[0, 0, 0, 0, 0, 0, 0, 0, 0]"
        "\<lparr>scsi = BasicSCSIHandler, mmap = [0x28, 0, 0, 0, 0, 0, 0, 0, 0, 0],
              cmdTail = 0, uioWrites = []\<rparr>" 0]
    by (simp add: newCmd_def)
  have u: "CdbLen (newCmd 1 [0x60, 0, 0, 0, 0, 0] [] BasicSCSIHandler) = Inl (WhatOpcodeIs 0x60)
     \<and> cdbLen \<lparr>scsi = BasicSCSIHandler, mmap = [0x60, 0, 0, 0, 0, 0],
              cmdTail = 0, uioWrites = []\<rparr> 0 = Inl (WhatOpcodeIs 0x60)"
    using CdbLen_table [of "newCmd 1 [0x60, 0, 0, 0, 0, 0] [] BasicSCSIHandler"
        "0x60" "[0, 0, 0, 0, 0]"
        "\<lparr>scsi = BasicSCSIHandler, mmap = [0x60, 0, 0, 0, 0, 0],
              cmdTail = 0, uioWrites = []\<rparr>" 0]
    by (simp add: newCmd_def)
  from v t u show ?thesis by blast
qed

section \<open>Logical block address of a 6-byte CDB\<close>

lemma be_bytes_2: "(be_bytes [a, b] :: 16 word) = push_bit 8 (ucast a) OR ucast b"
  by (simp add: be_bytes_def)

lemma ucast_be_bytes_2: "(ucast (be_bytes [a, b] :: 16 word) :: byte) = b"
proof -
  have "(ucast (push_bit 8 (ucast a :: 16 word) OR ucast b) :: byte) = b"
    by (rule bit_word_eqI) (auto simp: bit_simps)
  then show ?thesis by (simp only: be_bytes_2)
qed

text \<open>
  For a 6-byte CDB the code converts the 16-bit big-endian field at bytes 2-3 to
  \<^verbatim>\<open>uint8\<close> before it tests for zero: what \<open>LBA\<close> returns depends on byte 3 alone.
\<close>

lemma LBA_6byte:
  assumes "cdb c = [b0, b1, b2, b3, b4, b5]" and "b0 \<le> 0x1f"
  shows "LBA c = Inr (if b3 = 0 then 256 else ucast b3)"
  using assms by (simp add: LBA_def CdbLen_def slice_def Uint16_def ucast_be_bytes_2 Let_def)

text \<open>
  C1. The claim that \<open>LBA\<close> of a 6-byte CDB is the big-endian 16-bit integer at CDB
  bytes 2-3 (with 0 read as 256) fails on the Read(6) CDB \<open>08 00 01 01 01 00\<close>: the
  16-bit field is 257 and \<open>LBA\<close> returns 1.
\<close>

theorem LBA_6byte_drops_high_byte:
  "LBA (newCmd 1 [0x08, 0x00, 0x01, 0x01, 0x01, 0x00] [] BasicSCSIHandler) = Inr 1
   \<and> Uint16 [0x01, 0x01] = 257"
  by (simp add: LBA_6byte [of _ "0x08" "0x00" "0x01" "0x01" "0x01" "0x00"] newCmd_def
        Uint16_def be_bytes_def)


section \<open>The scatter-gather cursor on the concatenated vecs\<close>

lemma length_overlay: "p + length ys \<le> length xs \<Longrightarrow> length (overlay xs p ys) = length xs"
  by (simp add: overlay_def)

lemma overlay_overlay:
  "p + length ys + length zs \<le> length xs \<Longrightarrow>
   overlay (overlay xs p ys) (p + length ys) zs = overlay xs p (ys @ zs)"
  by (simp add: overlay_def add.commute add.left_commute)

lemma overlay_overlay':
  "length ys = n \<Longrightarrow> p + n + length zs \<le> length xs \<Longrightarrow>
   overlay (overlay xs p ys) (p + n) zs = overlay xs p (ys @ zs)"
  using overlay_overlay by blast

lemma copy_into_overlay:
  "at \<le> length dst \<Longrightarrow> copy_into dst at src = overlay dst at (take (min (length dst - at) (length src)) src)"
  by (simp add: copy_into_def overlay_def Let_def)

lemma concat_update_overlay:
  assumes "i < length vs" "off + length ys \<le> length (vs ! i)"
  shows "concat (vs[i := overlay (vs ! i) off ys]) =
         overlay (concat vs) (length (concat (take i vs)) + off) ys"
proof -
  have vs: "vs = take i vs @ (vs ! i) # drop (Suc i) vs"
    using assms(1) by (simp add: id_take_nth_drop)
  have upd: "vs[i := w] = take i vs @ w # drop (Suc i) vs" for w
    using assms(1) by (simp add: upd_conv_take_nth_drop)
  have c: "concat vs = concat (take i vs) @ (vs ! i) @ concat (drop (Suc i) vs)"
    by (subst vs) simp
  show ?thesis
    unfolding upd
    apply (simp add: c)
    using assms(2) by (simp add: overlay_def)
qed


lemma length_copy_into: "at \<le> length dst \<Longrightarrow> length (copy_into dst at src) = length dst"
  by (simp add: copy_into_def Let_def)

lemma length_concat_take_update:
  "length w = length (vs ! i) \<Longrightarrow> i < length vs \<Longrightarrow>
   length (concat (take j (vs[i := w]))) = length (concat (take j vs))"
  by (simp add: length_concat take_map[symmetric] map_update list_update_same_conv[THEN iffD2])

lemma pos_le: "cursor_ok c \<Longrightarrow> pos c \<le> length (concat (vecs c))"
proof -
  assume ok: "cursor_ok c"
  show ?thesis
  proof (cases "vecoffset c < length (vecs c)")
    case True
    have vs: "vecs c = take (vecoffset c) (vecs c) @ (vecs c ! vecoffset c) # drop (Suc (vecoffset c)) (vecs c)"
      using True by (simp add: id_take_nth_drop)
    have "length (concat (vecs c)) = length (concat (take (vecoffset c) (vecs c))) + length (vecs c ! vecoffset c) + length (concat (drop (Suc (vecoffset c)) (vecs c)))"
      by (subst vs) simp
    then show ?thesis using ok True by (simp add: pos_def cursor_ok_def)
  next
    case False
    then show ?thesis using ok by (simp add: pos_def cursor_ok_def)
  qed
qed

lemma remaining_in_vec:
  assumes "cursor_ok c" "vecoffset c < length (vecs c)"
  shows "remaining c = (length (vecs c ! vecoffset c) - offset c) + length (concat (drop (Suc (vecoffset c)) (vecs c)))"
proof -
  have vs: "vecs c = take (vecoffset c) (vecs c) @ (vecs c ! vecoffset c) # drop (Suc (vecoffset c)) (vecs c)"
    using assms(2) by (simp add: id_take_nth_drop)
  have "length (concat (vecs c)) = length (concat (take (vecoffset c) (vecs c))) + length (vecs c ! vecoffset c) + length (concat (drop (Suc (vecoffset c)) (vecs c)))"
    by (subst vs) simp
  then show ?thesis using assms by (simp add: remaining_def pos_def cursor_ok_def)
qed


lemma write_loop_flat:
  assumes "cursor_ok c" "boff \<le> length b"
  shows "\<exists>c'. write_loop c b boff =
            Inr (c', boff + min (length b - boff) (remaining c),
                 if remaining c < length b - boff then Some OutOfBufferSpace else None)
       \<and> concat (vecs c') =
            overlay (concat (vecs c)) (pos c) (take (min (length b - boff) (remaining c)) (drop boff b))
       \<and> map length (vecs c') = map length (vecs c)
       \<and> cursor_ok c'
       \<and> pos c' = pos c + min (length b - boff) (remaining c)
       \<and> (remaining c < length b - boff \<longrightarrow> vecoffset c' = length (vecs c'))
       \<and> c'\<lparr>vecs := vecs c, offset := offset c, vecoffset := vecoffset c\<rparr> = c"
  using assms
proof (induction c b boff rule: write_loop.induct)
  case (1 c b boff)
  note ok = \<open>cursor_ok c\<close>
  show ?case
  proof (cases "length b - boff = 0")
    case True
    then show ?thesis
      using pos_le[OF ok] by (subst write_loop.simps) (simp add: overlay_def ok)
  next
    case nz: False
    show ?thesis
    proof (cases "vecoffset c = length (vecs c)")
      case True
      then have r0: "remaining c = 0" using ok by (simp add: remaining_def pos_def cursor_ok_def)
      show ?thesis
        using nz True r0 pos_le[OF ok] ok by (subst write_loop.simps) (simp add: overlay_def)
    next
      case ne: False
      then have lt: "vecoffset c < length (vecs c)" using ok by (simp add: cursor_ok_def)
      then have offle: "offset c \<le> length (vecs c ! vecoffset c)" using ok by (simp add: cursor_ok_def)
      define v where "v = vecs c ! vecoffset c"
      define wrote where "wrote = min (length v - offset c) (length b - boff)"
      define c1 where "c1 = c\<lparr>vecs := (vecs c)[vecoffset c := copy_into v (offset c) (drop boff b)],
                   offset := offset c + wrote\<rparr>"
      define c2 where "c2 = (if offset c1 = length v then c1\<lparr>vecoffset := vecoffset c1 + 1, offset := 0\<rparr>
                  else c1)"
      have unfold: "write_loop c b boff = write_loop c2 b (boff + wrote)"
        using nz ne lt offle
        by (subst write_loop.simps) (simp add: Let_def v_def wrote_def c1_def c2_def)
      have offv: "offset c \<le> length v" using offle by (simp add: v_def)
      have wle: "boff + wrote \<le> length b" using \<open>boff \<le> length b\<close> by (simp add: wrote_def)
      have w_fit: "offset c + wrote \<le> length v" using offv by (simp add: wrote_def)
      have ci: "copy_into v (offset c) (drop boff b) = overlay v (offset c) (take wrote (drop boff b))"
        using offv by (simp add: copy_into_overlay wrote_def)
      have lw: "length (take wrote (drop boff b)) = wrote" by (simp add: wrote_def)
      have lv': "length (copy_into v (offset c) (drop boff b)) = length (vecs c ! vecoffset c)"
        using offv by (simp add: length_copy_into v_def)
      have vecs2: "vecs c2 = (vecs c)[vecoffset c := overlay v (offset c) (take wrote (drop boff b))]"
        by (simp add: c2_def c1_def ci)
      have lsp: "length (overlay v (offset c) (take wrote (drop boff b))) = length (vecs c ! vecoffset c)"
        using lv' by (simp only: ci)
      have ml: "map length (vecs c2) = map length (vecs c)"
        using lsp lt by (simp add: vecs2 map_update list_update_same_conv[THEN iffD2])
      have cat2: "concat (vecs c2) = overlay (concat (vecs c)) (pos c) (take wrote (drop boff b))"
        unfolding vecs2 v_def pos_def
        using lt w_fit lw by (intro concat_update_overlay) (simp_all add: v_def)
      have lcat: "length (concat (vecs c2)) = length (concat (vecs c))"
        using ml by (metis length_concat)
      have rem: "remaining c = (length v - offset c) + length (concat (drop (Suc (vecoffset c)) (vecs c)))"
        using remaining_in_vec[OF ok lt] by (simp add: v_def)
      have len2: "length (vecs c2) = length (vecs c)" by (simp add: vecs2)
      have nth2: "length (vecs c2 ! vecoffset c) = length v"
        using lt lsp by (simp add: vecs2 v_def)
      have pre2: "length (concat (take j (vecs c2))) = length (concat (take j (vecs c)))" for j
        using ml by (metis length_concat take_map)
      have takeS: "length (concat (take (Suc (vecoffset c)) (vecs c))) = length (concat (take (vecoffset c) (vecs c))) + length v"
        using lt by (simp add: take_Suc_conv_app_nth v_def)
      have ok2: "cursor_ok c2"
        using lt w_fit nth2 len2
        by (auto simp: cursor_ok_def c2_def c1_def)
      have pos2: "pos c2 = pos c + wrote"
        using pre2 takeS w_fit
        by (auto simp: pos_def c2_def c1_def)
      have rem2: "remaining c2 = remaining c - wrote"
        by (simp add: remaining_def pos2 lcat)
      have wrem: "wrote \<le> remaining c" using rem by (simp add: wrote_def)
      from "1.IH"[OF nz ne _ _ v_def wrote_def c1_def c2_def ok2 wle] lt offle
      obtain c' where
        r: "write_loop c2 b (boff + wrote) =
            Inr (c', boff + wrote + min (length b - (boff + wrote)) (remaining c2),
                 if remaining c2 < length b - (boff + wrote) then Some OutOfBufferSpace else None)"
        and cat: "concat (vecs c') =
            overlay (concat (vecs c2)) (pos c2) (take (min (length b - (boff + wrote)) (remaining c2)) (drop (boff + wrote) b))"
        and ml': "map length (vecs c') = map length (vecs c2)"
        and ok': "cursor_ok c'"
        and pos': "pos c' = pos c2 + min (length b - (boff + wrote)) (remaining c2)"
        and fin': "remaining c2 < length b - (boff + wrote) \<longrightarrow> vecoffset c' = length (vecs c')"
        and same': "c'\<lparr>vecs := vecs c2, offset := offset c2, vecoffset := vecoffset c2\<rparr> = c2"
        by auto
      define k2 where "k2 = min (length b - (boff + wrote)) (remaining c2)"
      have ksum: "min (length b - boff) (remaining c) = wrote + k2"
        using wrem wle unfolding k2_def rem2 by arith
      have tk: "take wrote (drop boff b) @ take k2 (drop (boff + wrote) b) = take (wrote + k2) (drop boff b)"
      proof -
        have "drop (boff + wrote) b = drop wrote (drop boff b)" by (simp add: add.commute)
        then show ?thesis by (simp only: take_add)
      qed
      have lk2: "length (take k2 (drop (boff + wrote) b)) = k2" by (simp add: k2_def)
      have fits: "pos c + wrote + k2 \<le> length (concat (vecs c))"
      proof -
        have "k2 \<le> remaining c - wrote" by (simp add: k2_def rem2)
        then show ?thesis using pos_le[OF ok] wrem unfolding remaining_def by arith
      qed
      have cat': "concat (vecs c') = overlay (concat (vecs c)) (pos c) (take (wrote + k2) (drop boff b))"
      proof -
        have "overlay (overlay (concat (vecs c)) (pos c) (take wrote (drop boff b))) (pos c + wrote)
                (take k2 (drop (boff + wrote) b))
              = overlay (concat (vecs c)) (pos c) (take wrote (drop boff b) @ take k2 (drop (boff + wrote) b))"
          using fits lw lk2 by (intro overlay_overlay') simp_all
        then show ?thesis
          by (simp add: cat cat2 pos2 k2_def[symmetric] tk)
      qed
      have errs: "(remaining c2 < length b - (boff + wrote)) = (remaining c < length b - boff)"
        using wrem wle unfolding rem2 by arith
      have same: "c'\<lparr>vecs := vecs c, offset := offset c, vecoffset := vecoffset c\<rparr> = c"
      proof -
        have "c'\<lparr>vecs := vecs c, offset := offset c, vecoffset := vecoffset c\<rparr>
            = (c'\<lparr>vecs := vecs c2, offset := offset c2, vecoffset := vecoffset c2\<rparr>)\<lparr>vecs := vecs c, offset := offset c, vecoffset := vecoffset c\<rparr>"
          by simp
        also have "\<dots> = c2\<lparr>vecs := vecs c, offset := offset c, vecoffset := vecoffset c\<rparr>"
          by (simp only: same')
        also have "\<dots> = c" by (simp add: c2_def c1_def)
        finally show ?thesis .
      qed
      show ?thesis
        unfolding unfold
        using r cat' ml' ml ok' pos' pos2 fin' same errs
        by (simp add: ksum k2_def[symmetric] add.assoc)
    qed
  qed
qed


lemma drop_pos_in_vec:
  assumes "vecoffset c < length (vecs c)" "offset c \<le> length (vecs c ! vecoffset c)"
  shows "drop (pos c) (concat (vecs c)) =
         drop (offset c) (vecs c ! vecoffset c) @ concat (drop (Suc (vecoffset c)) (vecs c))"
proof -
  have vs: "vecs c = take (vecoffset c) (vecs c) @ (vecs c ! vecoffset c) # drop (Suc (vecoffset c)) (vecs c)"
    using assms(1) by (simp add: id_take_nth_drop)
  have "concat (vecs c) = concat (take (vecoffset c) (vecs c)) @ (vecs c ! vecoffset c) @ concat (drop (Suc (vecoffset c)) (vecs c))"
    by (subst vs) simp
  then show ?thesis using assms(2) by (simp add: pos_def)
qed

lemma read_loop_flat:
  assumes "cursor_ok c" "boff \<le> length b"
  shows "\<exists>c'. read_loop c b boff =
            Inr (c', overlay b boff (take (min (length b - boff) (remaining c)) (drop (pos c) (concat (vecs c)))),
                 boff + min (length b - boff) (remaining c),
                 if remaining c < length b - boff then Some EOF else None)
       \<and> cursor_ok c'
       \<and> pos c' = pos c + min (length b - boff) (remaining c)
       \<and> (remaining c < length b - boff \<longrightarrow> vecoffset c' = length (vecs c'))
       \<and> c'\<lparr>offset := offset c, vecoffset := vecoffset c\<rparr> = c"
  using assms
proof (induction c b boff rule: read_loop.induct)
  case (1 c b boff)
  note ok = \<open>cursor_ok c\<close>
  show ?case
  proof (cases "length b - boff = 0")
    case True
    then show ?thesis
      using \<open>boff \<le> length b\<close> by (subst read_loop.simps) (simp add: overlay_def ok)
  next
    case nz: False
    show ?thesis
    proof (cases "vecoffset c = length (vecs c)")
      case True
      then have r0: "remaining c = 0" using ok by (simp add: remaining_def pos_def cursor_ok_def)
      show ?thesis
        using nz True r0 \<open>boff \<le> length b\<close> ok by (subst read_loop.simps) (simp add: overlay_def)
    next
      case ne: False
      then have lt: "vecoffset c < length (vecs c)" using ok by (simp add: cursor_ok_def)
      then have offle: "offset c \<le> length (vecs c ! vecoffset c)" using ok by (simp add: cursor_ok_def)
      define v where "v = vecs c ! vecoffset c"
      define rd where "rd = min (length b - boff) (length v - offset c)"
      define b1 where "b1 = copy_into b boff (drop (offset c) v)"
      define c1 where "c1 = c\<lparr>offset := offset c + rd\<rparr>"
      define c2 where "c2 = (if offset c1 = length v then c1\<lparr>vecoffset := vecoffset c1 + 1, offset := 0\<rparr>
                  else c1)"
      define F where "F = concat (vecs c)"
      have unfold: "read_loop c b boff = read_loop c2 b1 (boff + rd)"
        using nz ne lt offle
        by (subst read_loop.simps) (simp add: Let_def v_def rd_def b1_def c1_def c2_def)
      have offv: "offset c \<le> length v" using offle by (simp add: v_def)
      have lb1: "length b1 = length b"
        using \<open>boff \<le> length b\<close> by (simp add: b1_def length_copy_into)
      have rle: "boff + rd \<le> length b1" using \<open>boff \<le> length b\<close> by (simp add: rd_def lb1)
      have r_fit: "offset c + rd \<le> length v" using offv by (simp add: rd_def)
      have dropF: "drop (pos c) F = drop (offset c) v @ concat (drop (Suc (vecoffset c)) (vecs c))"
        using drop_pos_in_vec[OF lt offle] by (simp add: F_def v_def)
      have X: "take rd (drop (offset c) v) = take rd (drop (pos c) F)"
        using r_fit by (simp add: dropF)
      have b1o: "b1 = overlay b boff (take rd (drop (pos c) F))"
      proof -
        have "b1 = overlay b boff (take rd (drop (offset c) v))"
          using \<open>boff \<le> length b\<close>
          by (simp add: b1_def copy_into_overlay rd_def)
        then show ?thesis by (simp only: X)
      qed
      have lX: "length (take rd (drop (pos c) F)) = rd"
        using r_fit by (simp add: X[symmetric])
      have rem: "remaining c = (length v - offset c) + length (concat (drop (Suc (vecoffset c)) (vecs c)))"
        using remaining_in_vec[OF ok lt] by (simp add: v_def)
      have vecs2: "vecs c2 = vecs c" by (simp add: c2_def c1_def)
      have takeS: "length (concat (take (Suc (vecoffset c)) (vecs c))) = length (concat (take (vecoffset c) (vecs c))) + length v"
        using lt by (simp add: take_Suc_conv_app_nth v_def)
      have ok2: "cursor_ok c2"
        using lt r_fit
        by (auto simp: cursor_ok_def c2_def c1_def v_def)
      have pos2: "pos c2 = pos c + rd"
        using takeS r_fit
        by (auto simp: pos_def c2_def c1_def)
      have rem2: "remaining c2 = remaining c - rd"
        by (simp add: remaining_def pos2 vecs2)
      have wrem: "rd \<le> remaining c" using rem by (simp add: rd_def)
      define k2 where "k2 = min (length b1 - (boff + rd)) (remaining c2)"
      from "1.IH"[OF nz ne _ _ v_def rd_def b1_def c1_def c2_def ok2 rle] lt offle
      obtain c' where
        r: "read_loop c2 b1 (boff + rd) =
            Inr (c', overlay b1 (boff + rd) (take k2 (drop (pos c2) (concat (vecs c2)))),
                 boff + rd + k2,
                 if remaining c2 < length b1 - (boff + rd) then Some EOF else None)"
        and ok': "cursor_ok c'"
        and pos': "pos c' = pos c2 + k2"
        and fin': "remaining c2 < length b1 - (boff + rd) \<longrightarrow> vecoffset c' = length (vecs c')"
        and same': "c'\<lparr>offset := offset c2, vecoffset := vecoffset c2\<rparr> = c2"
        unfolding k2_def by auto
      have ksum: "min (length b - boff) (remaining c) = rd + k2"
        using wrem rle unfolding k2_def rem2 lb1 by arith
      have tk: "take rd (drop (pos c) F) @ take k2 (drop (pos c + rd) F) = take (rd + k2) (drop (pos c) F)"
      proof -
        have "drop (pos c + rd) F = drop rd (drop (pos c) F)" by (simp add: add.commute)
        then show ?thesis by (simp only: take_add)
      qed
      have fits: "boff + rd + length (take k2 (drop (pos c + rd) F)) \<le> length b"
      proof -
        have "k2 \<le> length b - (boff + rd)" by (simp add: k2_def lb1)
        then show ?thesis using rle lb1 by simp
      qed
      have buf: "overlay b1 (boff + rd) (take k2 (drop (pos c2) (concat (vecs c2))))
               = overlay b boff (take (rd + k2) (drop (pos c) F))"
      proof -
        have "overlay (overlay b boff (take rd (drop (pos c) F))) (boff + rd) (take k2 (drop (pos c + rd) F))
              = overlay b boff (take rd (drop (pos c) F) @ take k2 (drop (pos c + rd) F))"
          using fits lX by (intro overlay_overlay') simp_all
        then show ?thesis
          by (simp add: b1o pos2 vecs2 F_def[symmetric] tk)
      qed
      have errs: "(remaining c2 < length b1 - (boff + rd)) = (remaining c < length b - boff)"
        using wrem rle unfolding rem2 lb1 by arith
      have same: "c'\<lparr>offset := offset c, vecoffset := vecoffset c\<rparr> = c"
      proof -
        have "c'\<lparr>offset := offset c, vecoffset := vecoffset c\<rparr>
            = (c'\<lparr>offset := offset c2, vecoffset := vecoffset c2\<rparr>)\<lparr>offset := offset c, vecoffset := vecoffset c\<rparr>"
          by simp
        also have "\<dots> = c2\<lparr>offset := offset c, vecoffset := vecoffset c\<rparr>"
          by (simp only: same')
        also have "\<dots> = c" by (simp add: c2_def c1_def)
        finally show ?thesis .
      qed
      show ?thesis
        unfolding unfold
        using r buf ok' pos' pos2 fin' same errs
        by (simp add: ksum F_def[symmetric] add.assoc)
    qed
  qed
qed

text \<open>
  C10. When \<open>Write\<close> is given more bytes than remain after the cursor, it copies the
  bytes that fit (the first \<open>remaining c\<close> bytes of \<open>b\<close> now fill the vecs from the
  cursor to the end, the slices keep their lengths), returns that count together with
  the out-of-buffer-space error, and leaves the cursor at the end of the vecs. When
  \<open>Read\<close> is given a buffer longer than what remains, it copies what remains to the
  front of the buffer, returns that count together with \<open>EOF\<close>, and likewise leaves
  the cursor at the end. Neither undoes the partial copy.
\<close>

theorem Write_Read_partial:
  assumes "cursor_ok c" and "remaining c < length b"
  shows "(\<exists>c'. Write c b = Inr (c', remaining c, Some OutOfBufferSpace)
            \<and> concat (vecs c') = take (pos c) (concat (vecs c)) @ take (remaining c) b
            \<and> map length (vecs c') = map length (vecs c)
            \<and> vecoffset c' = length (vecs c'))
       \<and> (\<exists>c'. Read c b = Inr (c', drop (pos c) (concat (vecs c)) @ drop (remaining c) b,
                                remaining c, Some EOF)
            \<and> vecs c' = vecs c
            \<and> vecoffset c' = length (vecs c'))"
proof -
  have k: "min (length b - 0) (remaining c) = remaining c"
    using assms(2) by simp
  have p: "pos c + remaining c = length (concat (vecs c))"
    using pos_le[OF assms(1)] by (simp add: remaining_def)
  obtain c' where
    w: "write_loop c b 0 = Inr (c', 0 + min (length b - 0) (remaining c),
          if remaining c < length b - 0 then Some OutOfBufferSpace else None)"
    and wc: "concat (vecs c') =
          overlay (concat (vecs c)) (pos c) (take (min (length b - 0) (remaining c)) (drop 0 b))"
    and wl: "map length (vecs c') = map length (vecs c)"
    and wf: "remaining c < length b - 0 \<longrightarrow> vecoffset c' = length (vecs c')"
    using write_loop_flat[OF assms(1), of 0 b] by blast
  have wc': "concat (vecs c') = take (pos c) (concat (vecs c)) @ take (remaining c) b"
    using wc p assms(2) unfolding k by (simp add: overlay_def)
  have W: "\<exists>c'. Write c b = Inr (c', remaining c, Some OutOfBufferSpace)
            \<and> concat (vecs c') = take (pos c) (concat (vecs c)) @ take (remaining c) b
            \<and> map length (vecs c') = map length (vecs c)
            \<and> vecoffset c' = length (vecs c')"
    using w wc' wl wf assms(2) unfolding k Write_def by auto
  obtain c'' where
    r: "read_loop c b 0 = Inr (c'',
          overlay b 0 (take (min (length b - 0) (remaining c)) (drop (pos c) (concat (vecs c)))),
          0 + min (length b - 0) (remaining c),
          if remaining c < length b - 0 then Some EOF else None)"
    and rf: "remaining c < length b - 0 \<longrightarrow> vecoffset c'' = length (vecs c'')"
    and rs: "c''\<lparr>offset := offset c, vecoffset := vecoffset c\<rparr> = c"
    using read_loop_flat[OF assms(1), of 0 b] by blast
  have rv: "vecs c'' = vecs c"
  proof -
    have "vecs c'' = vecs (c''\<lparr>offset := offset c, vecoffset := vecoffset c\<rparr>)" by simp
    then show ?thesis by (simp only: rs)
  qed
  have tk: "take (remaining c) (drop (pos c) (concat (vecs c))) = drop (pos c) (concat (vecs c))"
    by (simp add: remaining_def)
  have rb: "overlay b 0 (take (min (length b - 0) (remaining c)) (drop (pos c) (concat (vecs c))))
          = drop (pos c) (concat (vecs c)) @ drop (remaining c) b"
    unfolding k tk by (simp add: overlay_def remaining_def)
  have R: "\<exists>c'. Read c b = Inr (c', drop (pos c) (concat (vecs c)) @ drop (remaining c) b,
                                remaining c, Some EOF)
            \<and> vecs c' = vecs c
            \<and> vecoffset c' = length (vecs c')"
  proof -
    have "read_loop c b 0 = Inr (c'', drop (pos c) (concat (vecs c)) @ drop (remaining c) b,
                                remaining c, Some EOF)"
      using r assms(2) by (simp only: rb) simp
    then show ?thesis using rf rv assms(2) by (auto simp: Read_def)
  qed
  from W R show ?thesis by blast
qed

theorem Write_Read_partial_witness:
  "cursor_ok \<lparr>id_cmd = 1, cdb = [], vecs = [[9], [8]], offset = 0, vecoffset = 0,
      device = \<lparr>VolumeName = [], DataSizes = \<lparr>VolumeSize = 0, BlockSize = 0\<rparr>, HBA = 0, LUN = 0\<rparr>,
      Buf = []\<rparr>
   \<and> (\<exists>c'. Write \<lparr>id_cmd = 1, cdb = [], vecs = [[9], [8]], offset = 0, vecoffset = 0,
      device = \<lparr>VolumeName = [], DataSizes = \<lparr>VolumeSize = 0, BlockSize = 0\<rparr>, HBA = 0, LUN = 0\<rparr>,
      Buf = []\<rparr> [0, 1, 2] = Inr (c', 2, Some OutOfBufferSpace)
         \<and> concat (vecs c') = [0, 1] \<and> vecoffset c' = 2)
   \<and> (\<exists>c'. Read \<lparr>id_cmd = 1, cdb = [], vecs = [[9], [8]], offset = 0, vecoffset = 0,
      device = \<lparr>VolumeName = [], DataSizes = \<lparr>VolumeSize = 0, BlockSize = 0\<rparr>, HBA = 0, LUN = 0\<rparr>,
      Buf = []\<rparr> [0, 1, 2] = Inr (c', [9, 8, 2], 2, Some EOF) \<and> vecoffset c' = 2)"
proof -
  define c0 :: SCSICmd where "c0 = \<lparr>id_cmd = 1, cdb = [], vecs = [[9], [8]], offset = 0, vecoffset = 0,
      device = \<lparr>VolumeName = [], DataSizes = \<lparr>VolumeSize = 0, BlockSize = 0\<rparr>, HBA = 0, LUN = 0\<rparr>,
      Buf = []\<rparr>"
  have ok: "cursor_ok c0" by (simp add: c0_def cursor_ok_def)
  have p: "pos c0 = 0" by (simp add: c0_def pos_def)
  have r: "remaining c0 = 2" by (simp add: c0_def remaining_def pos_def)
  have lt: "remaining c0 < length [0, 1, 2 :: byte]" by (simp add: r)
  have v: "vecs c0 = [[9], [8]]" by (simp add: c0_def)
  have mm: "\<And>ws. map length ws = map length (vecs c0) \<Longrightarrow> length ws = 2"
    by (metis v length_map length_Cons list.size(3) numeral_2_eq_2)
  show ?thesis
    using ok Write_Read_partial[OF ok lt] mm
    unfolding c0_def[symmetric] by (auto simp: p r v)
qed

section \<open>Sense data\<close>

lemma and_ff: "(w :: 16 word) AND 0xff = take_bit 8 w"
proof -
  have "(0xff :: 16 word) = mask 8" by (simp add: mask_eq_exp_minus_1)
  then show ?thesis by (simp only: take_bit_eq_mask)
qed

lemma asc_hi: "unat (ucast (drop_bit 8 (asc :: 16 word) AND 0xff) :: byte) = unat asc div 256"
proof -
  have lt: "unat asc < 2 ^ 16" using unsigned_less [of asc] by simp
  have "unat (ucast (take_bit 8 (drop_bit 8 asc)) :: byte) = take_bit 8 (take_bit 8 (drop_bit 8 (unat asc)))"
    by (simp only: unsigned_ucast_eq unsigned_take_bit_eq unat_drop_bit_eq) simp
  also have "\<dots> = (unat asc div 256) mod 256"
    by (simp add: take_bit_eq_mod drop_bit_eq_div)
  also have "\<dots> = unat asc div 256" using lt by simp
  finally show ?thesis by (simp only: and_ff)
qed

lemma asc_lo: "unat (ucast ((asc :: 16 word) AND 0xff) :: byte) = unat asc mod 256"
proof -
  have "unat (ucast (take_bit 8 asc) :: byte) = take_bit 8 (take_bit 8 (unat asc))"
    by (simp only: unsigned_ucast_eq unsigned_take_bit_eq) simp
  also have "\<dots> = unat asc mod 256"
    by (simp add: take_bit_eq_mod)
  finally show ?thesis by (simp only: and_ff)
qed

lemma CheckCondition_buf:
  "senseBuffer (CheckCondition c key asc) =
     (replicate 96 0)[0 := 0x70, 2 := key, 7 := 0xa,
                   12 := ucast (drop_bit 8 asc AND 0xff),
                   13 := ucast (asc AND 0xff)]"
  by (simp only: CheckCondition_def tcmuSenseBufferSize_def Let_def SCSIResponse.simps)

lemma CheckCondition_bytes:
  assumes "i < 96"
  shows "unat (senseBuffer (CheckCondition c key asc) ! i) =
     (if i = 0 then 0x70 else if i = 2 then unat key else if i = 7 then 0x0a
      else if i = 12 then unat asc div 256 else if i = 13 then unat asc mod 256 else 0)"
proof -
  define hi :: byte where "hi = ucast (drop_bit 8 asc AND 0xff)"
  define lo :: byte where "lo = ucast (asc AND 0xff)"
  have hi: "unat hi = unat asc div 256" unfolding hi_def by (rule asc_hi)
  have lo: "unat lo = unat asc mod 256" unfolding lo_def by (rule asc_lo)
  have buf: "senseBuffer (CheckCondition c key asc) =
      (replicate 96 0)[0 := 0x70, 2 := key, 7 := 0xa, 12 := hi, 13 := lo]"
    unfolding hi_def lo_def by (rule CheckCondition_buf)
  show ?thesis
    using assms by (simp add: buf nth_list_update hi lo)
qed

lemma NotHandled_bytes:
  "status (NotHandled c) = 0x02 \<and>
   map ((!) (senseBuffer (NotHandled c))) [0, 2, 7, 12, 13] = [0x70, 0x05, 0x0a, 0x20, 0x00]"
  by (simp add: NotHandled_def tcmuSenseBufferSize_def Let_def nth_list_update SamStatCheckCondition_def)

lemma HandleCommand_default:
  assumes "cdb c = op # rest"
    and "op \<notin> {0x12, 0x00, 0x9e, 0x1a, 0x5a, 0x15, 0x55, 0x08, 0x28, 0xa8, 0x88, 0x0a, 0x2a, 0xaa, 0x8a}"
  shows "HandleCommand h s c = Inr (c, s, NotHandled c, None)"
  using assms
  by (simp add: HandleCommand_def Command_def Inquiry_def TestUnitReady_def ServiceActionIn16_def
      ModeSense_def ModeSense10_def ModeSelect_def ModeSelect10_def Read6_def Read10_def Read12_def
      Read16_def Write6_def Write10_def Write12_def Write16_def)

text \<open>
  C8 as claimed fails: the sense key is stored as given, not masked with \<open>0x0f\<close>.
  For the key \<open>0x15\<close> byte 2 of the sense buffer is \<open>0x15\<close>, not \<open>0x05\<close>.
\<close>

theorem CheckCondition_key_counterexample:
  "senseBuffer (CheckCondition (newCmd 1 [0x35, 0, 0, 0, 0, 0, 0, 0, 0, 0] [] BasicSCSIHandler)
      0x15 0x2400) ! 2 \<noteq> 0x15 AND 0x0f"
  by (simp add: CheckCondition_buf)

text \<open>
  C8, amended. Every \<open>CheckCondition c key asc\<close> response has status \<open>0x02\<close> and a
  96-byte sense buffer with byte 0 = \<open>0x70\<close>, byte 2 = \<open>key\<close>, byte 7 = \<open>0x0a\<close>,
  byte 12 the high byte of \<open>asc\<close>, byte 13 its low byte, and every other byte zero.
  For a command whose opcode the handler does not dispatch on, \<open>HandleCommand\<close> leaves
  the command and the backend as they are and answers with status \<open>0x02\<close> and sense
  bytes 0, 2, 7, 12, 13 equal to \<open>70 05 0a 20 00\<close>.
\<close>

theorem CheckCondition_sense:
  assumes "cdb c = op # rest"
    and "op \<notin> {0x12, 0x00, 0x9e, 0x1a, 0x5a, 0x15, 0x55, 0x08, 0x28, 0xa8, 0x88, 0x0a, 0x2a, 0xaa, 0x8a}"
  shows "status (CheckCondition c' key asc) = 0x02
       \<and> length (senseBuffer (CheckCondition c' key asc)) = 96
       \<and> (\<forall>i<96. unat (senseBuffer (CheckCondition c' key asc) ! i) =
             (if i = 0 then 0x70 else if i = 2 then unat key else if i = 7 then 0x0a
              else if i = 12 then unat asc div 256 else if i = 13 then unat asc mod 256 else 0))
       \<and> (\<exists>r. HandleCommand h s c = Inr (c, s, r, None)
              \<and> status r = 0x02
              \<and> map ((!) (senseBuffer r)) [0, 2, 7, 12, 13] = [0x70, 0x05, 0x0a, 0x20, 0x00])"
proof -
  have st: "status (CheckCondition c' key asc) = 0x02"
    by (simp add: CheckCondition_def Let_def SamStatCheckCondition_def)
  have len: "length (senseBuffer (CheckCondition c' key asc)) = 96"
    by (simp add: CheckCondition_buf)
  have bs: "\<forall>i<96. unat (senseBuffer (CheckCondition c' key asc) ! i) =
             (if i = 0 then 0x70 else if i = 2 then unat key else if i = 7 then 0x0a
              else if i = 12 then unat asc div 256 else if i = 13 then unat asc mod 256 else 0)"
    by (intro allI impI) (rule CheckCondition_bytes)
  have nh: "\<exists>r. HandleCommand h s c = Inr (c, s, r, None)
              \<and> status r = 0x02
              \<and> map ((!) (senseBuffer r)) [0, 2, 7, 12, 13] = [0x70, 0x05, 0x0a, 0x20, 0x00]"
  proof (intro exI conjI)
    show "HandleCommand h s c = Inr (c, s, NotHandled c, None)"
      by (rule HandleCommand_default [OF assms])
    show "status (NotHandled c) = 0x02"
      using NotHandled_bytes [of c] by (rule conjunct1)
    show "map ((!) (senseBuffer (NotHandled c))) [0, 2, 7, 12, 13] = [0x70, 0x05, 0x0a, 0x20, 0x00]"
      using NotHandled_bytes [of c] by (rule conjunct2)
  qed
  show ?thesis
    by (rule conjI [OF st conjI [OF len conjI [OF bs nh]]])
qed

theorem CheckCondition_sense_witness:
  "unat (senseBuffer (CheckCondition (newCmd 7 [] [] BasicSCSIHandler) 0x05 0x2400) ! 12) = 0x24
   \<and> (\<exists>r. HandleCommand \<lparr>RW = \<lparr>ReadAt = (\<lambda>s n off. ([], True)),
                                  WriteAt = (\<lambda>s p off. (s, 0, True))\<rparr>, Inq = None\<rparr> ()
              (newCmd 1 [0x35, 0, 0, 0, 0, 0, 0, 0, 0, 0] [] BasicSCSIHandler)
            = Inr (newCmd 1 [0x35, 0, 0, 0, 0, 0, 0, 0, 0, 0] [] BasicSCSIHandler, (), r, None)
          \<and> status r = 0x02
          \<and> map ((!) (senseBuffer r)) [0, 2, 7, 12, 13] = [0x70, 0x05, 0x0a, 0x20, 0x00])"
proof -
  have a: "cdb (newCmd 1 [0x35, 0, 0, 0, 0, 0, 0, 0, 0, 0] [] BasicSCSIHandler)
           = 0x35 # [0, 0, 0, 0, 0, 0, 0, 0, 0]"
    by (simp add: newCmd_def)
  have b: "(0x35 :: byte) \<notin> {0x12, 0x00, 0x9e, 0x1a, 0x5a, 0x15, 0x55, 0x08, 0x28, 0xa8, 0x88,
                               0x0a, 0x2a, 0xaa, 0x8a}"
    by simp
  note T = CheckCondition_sense [OF a b, of "newCmd 7 [] [] BasicSCSIHandler" "0x05" "0x2400"
      "\<lparr>RW = \<lparr>ReadAt = (\<lambda>s n off. ([], True)),
               WriteAt = (\<lambda>s p off. (s, 0, True))\<rparr>, Inq = None\<rparr>" "()"]
  have bytes: "\<forall>i<96. unat (senseBuffer (CheckCondition (newCmd 7 [] [] BasicSCSIHandler) 0x05 0x2400) ! i) =
             (if i = 0 then 0x70 else if i = 2 then unat (0x05 :: byte) else if i = 7 then 0x0a
              else if i = 12 then unat (0x2400 :: 16 word) div 256
              else if i = 13 then unat (0x2400 :: 16 word) mod 256 else 0)"
    using T by (elim conjE)
  have b12: "unat (senseBuffer (CheckCondition (newCmd 7 [] [] BasicSCSIHandler) 0x05 0x2400) ! 12) = 0x24"
    using bytes [rule_format, of 12] by simp
  have nh: "\<exists>r. HandleCommand \<lparr>RW = \<lparr>ReadAt = (\<lambda>s n off. ([], True)),
                                  WriteAt = (\<lambda>s p off. (s, 0, True))\<rparr>, Inq = None\<rparr> ()
              (newCmd 1 [0x35, 0, 0, 0, 0, 0, 0, 0, 0, 0] [] BasicSCSIHandler)
            = Inr (newCmd 1 [0x35, 0, 0, 0, 0, 0, 0, 0, 0, 0] [] BasicSCSIHandler, (), r, None)
          \<and> status r = 0x02
          \<and> map ((!) (senseBuffer r)) [0, 2, 7, 12, 13] = [0x70, 0x05, 0x0a, 0x20, 0x00]"
    using T by (elim conjE)
  show ?thesis by (rule conjI [OF b12 nh])
qed

section \<open>Standard Inquiry\<close>

lemma FixedString_pad: "FixedString s n = take n (bytes s @ replicate n 0x20)"
  by (simp add: FixedString_def Let_def)

lemma length_FixedString: "length (FixedString s n) = n"
  by (simp add: FixedString_pad)

lemma copy_range_exact:
  "length src = hi - lo \<Longrightarrow> lo \<le> hi \<Longrightarrow> copy_range dst lo hi src = take lo dst @ src @ drop hi dst"
  "length src = hi - lo \<Longrightarrow> lo \<le> hi \<Longrightarrow> hi \<le> length dst \<Longrightarrow> length (copy_range dst lo hi src) = length dst"
  by (simp_all add: copy_range_def Let_def)

lemma inquiry_header: "(replicate 36 (0::byte))[2 := 0x05, 3 := 0x02, 7 := 0x02] = [0, 0, 5, 2, 0, 0, 0, 2] @ replicate 28 0"
  by (simp add: numeral_eq_Suc)

lemma std_buf:
  assumes "length v = 8" "length p = 16" "length r = 4"
  shows "(copy_range (copy_range (copy_range ((replicate 36 (0::byte))[2 := 0x05, 3 := 0x02, 7 := 0x02]) 8 16 v) 16 32 p) 32 36 r)[4 := 31]
         = [0, 0, 5, 2, 31, 0, 0, 2] @ v @ p @ r"
  using assms by (simp add: inquiry_header copy_range_exact)


lemma same_fields:
  assumes "c'\<lparr>vecs := vecs c, offset := offset c, vecoffset := vecoffset c\<rparr> = c"
  shows "id_cmd c' = id_cmd c" "cdb c' = cdb c" "device c' = device c" "Buf c' = Buf c"
proof -
  have "id_cmd c' = id_cmd (c'\<lparr>vecs := vecs c, offset := offset c, vecoffset := vecoffset c\<rparr>)" by simp
  then show "id_cmd c' = id_cmd c" by (simp only: assms)
  have "cdb c' = cdb (c'\<lparr>vecs := vecs c, offset := offset c, vecoffset := vecoffset c\<rparr>)" by simp
  then show "cdb c' = cdb c" by (simp only: assms)
  have "device c' = device (c'\<lparr>vecs := vecs c, offset := offset c, vecoffset := vecoffset c\<rparr>)" by simp
  then show "device c' = device c" by (simp only: assms)
  have "Buf c' = Buf (c'\<lparr>vecs := vecs c, offset := offset c, vecoffset := vecoffset c\<rparr>)" by simp
  then show "Buf c' = Buf c" by (simp only: assms)
qed

lemma Write_fits:
  assumes "cursor_ok c" and "length b \<le> remaining c"
  shows "\<exists>c'. Write c b = Inr (c', length b, None)
            \<and> concat (vecs c') = overlay (concat (vecs c)) (pos c) b
            \<and> map length (vecs c') = map length (vecs c)
            \<and> cursor_ok c' \<and> pos c' = pos c + length b
            \<and> id_cmd c' = id_cmd c \<and> cdb c' = cdb c \<and> device c' = device c \<and> Buf c' = Buf c"
proof -
  have k: "min (length b - 0) (remaining c) = length b" using assms(2) by simp
  have e: "\<not> remaining c < length b - 0" using assms(2) by simp
  obtain c' where
    w: "write_loop c b 0 = Inr (c', 0 + min (length b - 0) (remaining c),
          if remaining c < length b - 0 then Some OutOfBufferSpace else None)"
    and wc: "concat (vecs c') =
          overlay (concat (vecs c)) (pos c) (take (min (length b - 0) (remaining c)) (drop 0 b))"
    and wl: "map length (vecs c') = map length (vecs c)"
    and ok: "cursor_ok c'"
    and wp: "pos c' = pos c + min (length b - 0) (remaining c)"
    and same: "c'\<lparr>vecs := vecs c, offset := offset c, vecoffset := vecoffset c\<rparr> = c"
    using write_loop_flat[OF assms(1), of 0 b] by blast
  have w': "Write c b = Inr (c', length b, None)"
    using w e unfolding k Write_def by simp
  have wc': "concat (vecs c') = overlay (concat (vecs c)) (pos c) b"
    using wc unfolding k by simp
  have wp': "pos c' = pos c + length b" using wp unfolding k .
  show ?thesis
    using w' wc' wl ok wp' same_fields[OF same] by blast
qed

lemma Write_short:
  assumes "cursor_ok c" and "remaining c < length b"
  shows "\<exists>c'. Write c b = Inr (c', remaining c, Some OutOfBufferSpace)
            \<and> id_cmd c' = id_cmd c \<and> cdb c' = cdb c \<and> device c' = device c \<and> Buf c' = Buf c"
proof -
  have k: "min (length b - 0) (remaining c) = remaining c" using assms(2) by simp
  obtain c' where
    w: "write_loop c b 0 = Inr (c', 0 + min (length b - 0) (remaining c),
          if remaining c < length b - 0 then Some OutOfBufferSpace else None)"
    and same: "c'\<lparr>vecs := vecs c, offset := offset c, vecoffset := vecoffset c\<rparr> = c"
    using write_loop_flat[OF assms(1), of 0 b] by blast
  have w': "Write c b = Inr (c', remaining c, Some OutOfBufferSpace)"
    using w assms(2) unfolding k Write_def by simp
  show ?thesis
    using w' same_fields[OF same] by blast
qed

lemma EmulateStdInquiry_buf:
  "EmulateStdInquiry c inq =
     bnd (Write c ([0, 0, 5, 2, 31, 0, 0, 2] @ FixedString (VendorID inq) 8
                    @ FixedString (ProductID inq) 16 @ FixedString (ProductRev inq) 4))
       (\<lambda>(c', n, err).
           case err of
             Some e \<Rightarrow> Inr (c', emptyResponse, Some e)
           | None \<Rightarrow> Inr (c', Ok c', None))"
  unfolding EmulateStdInquiry_def Let_def
  by (simp only: std_buf[OF length_FixedString length_FixedString length_FixedString])


text \<open>
  With at least 36 bytes left after the cursor, a standard Inquiry fills exactly 36 bytes
  (the vecs keep their lengths and every other byte) with \<open>00 00 05 02 1f 00 00 02\<close>,
  the vendor ID, the product ID and the product revision, each space-padded or truncated
  to 8, 16 and 4 bytes, and answers Good.
\<close>

lemma Inquiry_standard_fits:
  assumes "cdb c = b0 # b1 # b2 # rest" and "b1 AND 0x01 = 0" and "b2 = 0" and "cursor_ok c"
    and "36 \<le> remaining c"
  shows "\<exists>c'. EmulateInquiry c inq =
                   Inr (c', \<lparr>id_resp = id_cmd c, status = 0x00, senseBuffer = []\<rparr>, None)
               \<and> concat (vecs c') =
                   take (pos c) (concat (vecs c))
                   @ [0x00, 0x00, 0x05, 0x02, 31, 0x00, 0x00, 0x02]
                   @ take 8 (bytes (VendorID inq) @ replicate 8 0x20)
                   @ take 16 (bytes (ProductID inq) @ replicate 16 0x20)
                   @ take 4 (bytes (ProductRev inq) @ replicate 4 0x20)
                   @ drop (pos c + 36) (concat (vecs c))
               \<and> map length (vecs c') = map length (vecs c)
               \<and> pos c' = pos c + 36"
proof -
  define buf where "buf = [0, 0, 5, 2, 31, 0, 0, 2] @ FixedString (VendorID inq) 8
                    @ FixedString (ProductID inq) 16 @ FixedString (ProductRev inq) 4"
  have lb: "length buf = 36" by (simp add: buf_def length_FixedString)
  have e: "EmulateInquiry c inq =
        bnd (Write c buf) (\<lambda>(c', n, err).
           case err of
             Some e \<Rightarrow> Inr (c', emptyResponse, Some e)
           | None \<Rightarrow> Inr (c', Ok c', None))"
    using assms(1,2,3) by (simp add: EmulateInquiry_def GetCDB_def EmulateStdInquiry_buf buf_def)
  have fits: "\<exists>c'. EmulateInquiry c inq =
                   Inr (c', \<lparr>id_resp = id_cmd c, status = 0x00, senseBuffer = []\<rparr>, None)
               \<and> concat (vecs c') =
                   take (pos c) (concat (vecs c))
                   @ [0x00, 0x00, 0x05, 0x02, 31, 0x00, 0x00, 0x02]
                   @ take 8 (bytes (VendorID inq) @ replicate 8 0x20)
                   @ take 16 (bytes (ProductID inq) @ replicate 16 0x20)
                   @ take 4 (bytes (ProductRev inq) @ replicate 4 0x20)
                   @ drop (pos c + 36) (concat (vecs c))
               \<and> map length (vecs c') = map length (vecs c)
               \<and> pos c' = pos c + 36" if "36 \<le> remaining c"
  proof -
    have "length buf \<le> remaining c" using that lb by simp
    from Write_fits[OF assms(4) this] obtain c' where
      w: "Write c buf = Inr (c', length buf, None)"
      and wc: "concat (vecs c') = overlay (concat (vecs c)) (pos c) buf"
      and wl: "map length (vecs c') = map length (vecs c)"
      and wp: "pos c' = pos c + length buf"
      and wi: "id_cmd c' = id_cmd c"
      by blast
    have r: "EmulateInquiry c inq = Inr (c', \<lparr>id_resp = id_cmd c, status = 0x00, senseBuffer = []\<rparr>, None)"
      by (simp add: e w Ok_def wi SamStatGood_def)
    have cat: "concat (vecs c') =
                   take (pos c) (concat (vecs c))
                   @ [0x00, 0x00, 0x05, 0x02, 31, 0x00, 0x00, 0x02]
                   @ take 8 (bytes (VendorID inq) @ replicate 8 0x20)
                   @ take 16 (bytes (ProductID inq) @ replicate 16 0x20)
                   @ take 4 (bytes (ProductRev inq) @ replicate 4 0x20)
                   @ drop (pos c + 36) (concat (vecs c))"
      unfolding wc overlay_def lb by (simp add: buf_def FixedString_pad)
    show ?thesis using r cat wl wp lb by auto
  qed
  show ?thesis using fits assms(5) by blast
qed

text \<open>
  C9. The claim fails on the code when the command's data buffer is shorter than the 36-byte
  answer. On the Inquiry CDB \<open>12 00 00 00 05 00\<close> (EVPD clear, page code 0, allocation
  length 5) with a 5-byte data buffer, the emulator fills the 5 bytes and then returns the
  Go error for a full buffer with the zero response, where the claim says it responds Good.
  The other emulation functions (\<open>EmulateEvpdInquiry\<close>, \<open>EmulateReadCapacity16\<close>,
  \<open>EmulateModeSense\<close>) ignore the result of the same \<open>Write\<close> and answer Good.
\<close>

theorem Inquiry_short_buffer_not_good:
  "EmulateInquiry (newCmd 1 [0x12, 0, 0, 0, 5, 0] [[0, 0, 0, 0, 0]] BasicSCSIHandler) defaultInquiry
   = Inr ((newCmd 1 [0x12, 0, 0, 0, 5, 0] [[0, 0, 5, 2, 31]] BasicSCSIHandler)\<lparr>vecoffset := 1\<rparr>,
          emptyResponse, Some OutOfBufferSpace)"
  unfolding EmulateInquiry_def EmulateStdInquiry_buf Write_def
  apply (subst write_loop.simps, simp add: newCmd_def GetCDB_def copy_into_def)
  apply (subst write_loop.simps, simp add: newCmd_def GetCDB_def copy_into_def)
  done

section \<open>Read Capacity (16)\<close>

lemma length_be_put [simp]: "length (be_put n w) = n"
  by (simp add: be_put_def)

lemma be_bytes_snoc: "be_bytes (bs @ [b]) = push_bit 8 (be_bytes bs) OR ucast b"
  by (simp add: be_bytes_def)

lemma be_put_Suc: "be_put (Suc n) w = be_put n (drop_bit 8 w) @ [ucast w]"
proof -
  have "map (\<lambda>i. ucast (drop_bit (8 * (Suc n - 1 - i)) w) :: byte) [0..<n]
      = map (\<lambda>i. ucast (drop_bit (8 * (n - 1 - i)) (drop_bit 8 w))) [0..<n]"
  proof (rule map_cong[OF refl])
    fix i assume "i \<in> set [0..<n]"
    then have "i < n" by simp
    then have "8 * (Suc n - 1 - i) = 8 + 8 * (n - 1 - i)" by simp
    then show "(ucast (drop_bit (8 * (Suc n - 1 - i)) w) :: byte) = ucast (drop_bit (8 * (n - 1 - i)) (drop_bit 8 w))"
      by (simp add: add.commute)
  qed
  then show ?thesis by (simp add: be_put_def)
qed

lemma be_bytes_be_put: "(be_bytes (be_put n w) :: 'a::len word) = take_bit (8 * n) (w :: 'a word)"
proof (induction n arbitrary: w)
  case 0
  show ?case by (simp add: be_put_def be_bytes_def)
next
  case (Suc n)
  have "(push_bit 8 (take_bit (8 * n) (drop_bit 8 w)) OR ucast (ucast w :: byte) :: 'a word)
        = take_bit (8 * Suc n) w"
  proof (rule bit_word_eqI)
    fix k assume "k < LENGTH('a)"
    show "bit (push_bit 8 (take_bit (8 * n) (drop_bit 8 w)) OR ucast (ucast w :: byte) :: 'a word) k
          = bit (take_bit (8 * Suc n) w) k"
    proof (cases "k < 8")
      case True
      then show ?thesis using \<open>k < LENGTH('a)\<close> by (auto simp: bit_simps)
    next
      case False
      then have "8 + (k - 8) = k" by simp
      then show ?thesis using False \<open>k < LENGTH('a)\<close> by (auto simp: bit_simps)
    qed
  qed
  then show ?case by (simp only: be_put_Suc be_bytes_snoc Suc.IH)
qed

lemma Uint64_be_put: "Uint64 (be_put 8 w) = w"
  by (simp add: Uint64_def be_bytes_be_put take_bit_word_eq_self)

lemma Uint32_be_put: "Uint32 (be_put 4 w) = w"
  by (simp add: Uint32_def be_bytes_be_put take_bit_word_eq_self)

lemma Uint16_be_put: "Uint16 (be_put 2 w) = w"
  by (simp add: Uint16_def be_bytes_be_put take_bit_word_eq_self)


lemma Write_any:
  assumes "cursor_ok c"
  shows "\<exists>c' n e. Write c b = Inr (c', n, e)
            \<and> concat (vecs c') =
                 take (pos c) (concat (vecs c)) @ take (remaining c) b
                 @ drop (pos c + length b) (concat (vecs c))
            \<and> map length (vecs c') = map length (vecs c)
            \<and> id_cmd c' = id_cmd c \<and> cdb c' = cdb c \<and> device c' = device c \<and> Buf c' = Buf c"
proof -
  obtain c' where
    w: "write_loop c b 0 = Inr (c', 0 + min (length b - 0) (remaining c),
          if remaining c < length b - 0 then Some OutOfBufferSpace else None)"
    and wc: "concat (vecs c') =
          overlay (concat (vecs c)) (pos c) (take (min (length b - 0) (remaining c)) (drop 0 b))"
    and wl: "map length (vecs c') = map length (vecs c)"
    and same: "c'\<lparr>vecs := vecs c, offset := offset c, vecoffset := vecoffset c\<rparr> = c"
    using write_loop_flat[OF assms(1), of 0 b] by blast
  have p: "pos c + remaining c = length (concat (vecs c))"
    using pos_le[OF assms(1)] by (simp add: remaining_def)
  have wc': "concat (vecs c') =
                 take (pos c) (concat (vecs c)) @ take (remaining c) b
                 @ drop (pos c + length b) (concat (vecs c))"
  proof (cases "length b \<le> remaining c")
    case True
    then show ?thesis using wc by (simp add: overlay_def min_def)
  next
    case False
    then have "min (length b - 0) (remaining c) = remaining c" by simp
    then show ?thesis using wc p False by (simp add: overlay_def)
  qed
  have "Write c b = Inr (c', 0 + min (length b - 0) (remaining c),
          if remaining c < length b - 0 then Some OutOfBufferSpace else None)"
    using w by (simp only: Write_def)
  then show ?thesis
    using wc' wl same_fields[OF same] by blast
qed

lemma rc16_buf:
  "overlay (overlay (replicate 32 (0::byte)) 0 (be_put 8 (q :: 64 word))) 8 (be_put 4 (b :: 32 word))
   = be_put 8 q @ be_put 4 b @ replicate 20 0"
  by (simp add: overlay_def)

text \<open>
  C3 as claimed fails: the service action is compared as the whole byte \<open>CDB[1]\<close>, not
  its low 5 bits. With \<open>CDB[1] = 0x30\<close>, whose low 5 bits are \<open>0x10\<close>, the emulator
  answers NotHandled.
\<close>

theorem ServiceActionIn_high_bits_counterexample:
  "EmulateServiceActionIn
     (newCmd 1 [0x9e, 0x30, 0, 0, 0, 0, 0, 0, 0, 0, 0, 0, 0, 32, 0, 0] [replicate 32 0] BasicSCSIHandler)
   = Inr (newCmd 1 [0x9e, 0x30, 0, 0, 0, 0, 0, 0, 0, 0, 0, 0, 0, 32, 0, 0] [replicate 32 0] BasicSCSIHandler,
          NotHandled (newCmd 1 [0x9e, 0x30, 0, 0, 0, 0, 0, 0, 0, 0, 0, 0, 0, 32, 0, 0] [replicate 32 0]
                        BasicSCSIHandler), None)
   \<and> (0x30 :: byte) AND 0x1f = 0x10"
  by (simp add: EmulateServiceActionIn_def GetCDB_def newCmd_def ReadCapacity16_def)

text \<open>
  C3, amended. For a Service Action In (16) command on a device with a non-zero block
  size: when \<open>CDB[1]\<close> is \<open>0x10\<close> (the whole byte), the emulator responds Good and
  writes to the command buffer, as far as it has room, a 32-byte buffer whose bytes 0-7
  are the big-endian \<open>VolumeSize / BlockSize - 1\<close> (a truncating 64-bit division, then a
  64-bit subtraction), whose bytes 8-11 are the big-endian low 32 bits of \<open>BlockSize\<close>
  and whose other bytes are zero; for sizes with \<open>0 < BlockSize \<le> VolumeSize\<close> the
  first field is the number \<open>VolumeSize div BlockSize - 1\<close>, and for
  \<open>0 < BlockSize < 2 ^ 32\<close> the second is \<open>BlockSize\<close>. For any other value of
  \<open>CDB[1]\<close> the emulator answers NotHandled and leaves the command as it is.
\<close>

theorem ServiceActionIn_ReadCapacity16:
  assumes "cdb c = b0 # b1 # rest"
    and "BlockSize (Sizes (device c)) \<noteq> 0"
    and "cursor_ok c"
  shows "(b1 = 0x10 \<longrightarrow>
           (\<exists>c' buf. EmulateServiceActionIn c =
                   Inr (c', \<lparr>id_resp = id_cmd c, status = 0x00, senseBuffer = []\<rparr>, None)
               \<and> length buf = 32
               \<and> Uint64 (take 8 buf) =
                   word_of_int (sint (VolumeSize (Sizes (device c))) sdiv sint (BlockSize (Sizes (device c)))) - 1
               \<and> Uint32 (take 4 (drop 8 buf)) = ucast (BlockSize (Sizes (device c)))
               \<and> drop 12 buf = replicate 20 0
               \<and> (0 < sint (BlockSize (Sizes (device c)))
                    \<and> sint (BlockSize (Sizes (device c))) \<le> sint (VolumeSize (Sizes (device c)))
                    \<longrightarrow> uint (Uint64 (take 8 buf)) =
                         sint (VolumeSize (Sizes (device c))) div sint (BlockSize (Sizes (device c))) - 1)
               \<and> (0 < sint (BlockSize (Sizes (device c))) \<and> sint (BlockSize (Sizes (device c))) < 2 ^ 32
                    \<longrightarrow> uint (Uint32 (take 4 (drop 8 buf))) = sint (BlockSize (Sizes (device c))))
               \<and> concat (vecs c') =
                   take (pos c) (concat (vecs c)) @ take (remaining c) buf
                   @ drop (pos c + 32) (concat (vecs c))
               \<and> map length (vecs c') = map length (vecs c)))
       \<and> (b1 \<noteq> 0x10 \<longrightarrow> EmulateServiceActionIn c = Inr (c, NotHandled c, None))"
proof -
  define V where "V = VolumeSize (Sizes (device c))"
  define B where "B = BlockSize (Sizes (device c))"
  define q :: "64 word" where "q = word_of_int (sint V sdiv sint B) - 1"
  define buf where "buf = be_put 8 q @ be_put 4 (ucast B :: 32 word) @ replicate 20 0"
  have g1: "GetCDB c 1 = Inr b1" using assms(1) by (simp add: GetCDB_def)
  have other: "EmulateServiceActionIn c = Inr (c, NotHandled c, None)" if "b1 \<noteq> 0x10"
    unfolding EmulateServiceActionIn_def g1 using that by (simp add: ReadCapacity16_def)
  have rc: "EmulateServiceActionIn c = bnd (Write c buf) (\<lambda>(c', n, err). Inr (c', Ok c', None))"
    if "b1 = 0x10"
    unfolding EmulateServiceActionIn_def g1 using that assms(2)
    by (simp add: ReadCapacity16_def EmulateReadCapacity16_def
        Let_def rc16_buf buf_def q_def V_def B_def)
  have lb: "length buf = 32" by (simp add: buf_def)
  have f1: "Uint64 (take 8 buf) = q" by (simp add: buf_def Uint64_be_put)
  have f2: "Uint32 (take 4 (drop 8 buf)) = ucast B" by (simp add: buf_def Uint32_be_put)
  have f3: "drop 12 buf = replicate 20 0" by (simp add: buf_def)
  have n1: "uint q = sint V div sint B - 1" if "0 < sint B" "sint B \<le> sint V"
  proof -
    have sd: "sint V sdiv sint B = sint V div sint B"
      using that by (simp add: signed_divide_int_def sgn_if)
    have ge: "1 \<le> sint V div sint B"
    proof -
      have "0 < sint V div sint B" using that by (simp add: pos_imp_zdiv_pos_iff)
      then show ?thesis by simp
    qed
    have "sint V div sint B \<le> sint V"
      using that by (intro int_div_le_self) simp
    also have "sint V < 2 ^ 63" using sint_lt [of V] by simp
    finally have lt: "sint V div sint B < 2 ^ 63" .
    have "q = word_of_int (sint V div sint B - 1)" by (simp add: q_def sd)
    then have "uint q = uint (word_of_int (sint V div sint B - 1) :: 64 word)"
      by (rule arg_cong)
    also have "\<dots> = (sint V div sint B - 1) mod 2 ^ 64"
      by (simp only: uint_word_of_int) simp
    also have "\<dots> = sint V div sint B - 1" using ge lt by simp
    finally show ?thesis .
  qed
  have n2: "uint (ucast B :: 32 word) = sint B" if "0 < sint B" "sint B < 2 ^ 32"
  proof -
    have "sint B < 2 ^ 64" using that(2) by simp
    then have "uint B = sint B"
      using that(1) by (simp add: uint_sint take_bit_int_eq_self)
    moreover have "uint (ucast B :: 32 word) = take_bit 32 (uint B)"
      by (simp add: unsigned_ucast_eq)
    ultimately show ?thesis using that by (simp add: take_bit_int_eq_self)
  qed
  have main: "\<exists>c' buf. EmulateServiceActionIn c =
                   Inr (c', \<lparr>id_resp = id_cmd c, status = 0x00, senseBuffer = []\<rparr>, None)
               \<and> length buf = 32
               \<and> Uint64 (take 8 buf) = word_of_int (sint V sdiv sint B) - 1
               \<and> Uint32 (take 4 (drop 8 buf)) = ucast B
               \<and> drop 12 buf = replicate 20 0
               \<and> (0 < sint B \<and> sint B \<le> sint V
                    \<longrightarrow> uint (Uint64 (take 8 buf)) = sint V div sint B - 1)
               \<and> (0 < sint B \<and> sint B < 2 ^ 32
                    \<longrightarrow> uint (Uint32 (take 4 (drop 8 buf))) = sint B)
               \<and> concat (vecs c') =
                   take (pos c) (concat (vecs c)) @ take (remaining c) buf
                   @ drop (pos c + 32) (concat (vecs c))
               \<and> map length (vecs c') = map length (vecs c)" if "b1 = 0x10"
  proof -
    from Write_any[OF assms(3), of buf] obtain c' n e where
      w: "Write c buf = Inr (c', n, e)"
      and wc: "concat (vecs c') =
                 take (pos c) (concat (vecs c)) @ take (remaining c) buf
                 @ drop (pos c + length buf) (concat (vecs c))"
      and wl: "map length (vecs c') = map length (vecs c)"
      and wi: "id_cmd c' = id_cmd c"
      by blast
    have r: "EmulateServiceActionIn c =
                   Inr (c', \<lparr>id_resp = id_cmd c, status = 0x00, senseBuffer = []\<rparr>, None)"
      by (simp add: rc[OF that] w Ok_def wi SamStatGood_def)
    show ?thesis
      apply (rule exI[of _ c'], rule exI[of _ buf])
      using r lb f1 f2 f3 n1 n2 wc wl
      by (simp add: q_def)
  qed
  show ?thesis
    using main other unfolding V_def B_def by blast
qed


theorem ServiceActionIn_ReadCapacity16_witness:
  "(\<exists>c' buf. EmulateServiceActionIn
        (newCmd 1 [0x9e, 0x10, 0, 0, 0, 0, 0, 0, 0, 0, 0, 0, 0, 32, 0, 0] [replicate 32 0xff] BasicSCSIHandler)
        = Inr (c', \<lparr>id_resp = 1, status = 0x00, senseBuffer = []\<rparr>, None)
      \<and> length buf = 32
      \<and> uint (Uint64 (take 8 buf)) = 2 ^ 20 - 1
      \<and> uint (Uint32 (take 4 (drop 8 buf))) = 1024
      \<and> drop 12 buf = replicate 20 0
      \<and> concat (vecs c') = buf)
   \<and> EmulateServiceActionIn
        (newCmd 1 [0x9e, 0x12, 0, 0, 0, 0, 0, 0, 0, 0, 0, 0, 0, 32, 0, 0] [replicate 32 0xff] BasicSCSIHandler)
      = Inr (newCmd 1 [0x9e, 0x12, 0, 0, 0, 0, 0, 0, 0, 0, 0, 0, 0, 32, 0, 0] [replicate 32 0xff] BasicSCSIHandler,
             NotHandled (newCmd 1 [0x9e, 0x12, 0, 0, 0, 0, 0, 0, 0, 0, 0, 0, 0, 32, 0, 0] [replicate 32 0xff]
                           BasicSCSIHandler), None)"
proof -
  define c0 where "c0 = newCmd 1 [0x9e, 0x10, 0, 0, 0, 0, 0, 0, 0, 0, 0, 0, 0, 32, 0, 0] [replicate 32 0xff] BasicSCSIHandler"
  define c1 where "c1 = newCmd 1 [0x9e, 0x12, 0, 0, 0, 0, 0, 0, 0, 0, 0, 0, 0, 32, 0, 0] [replicate 32 0xff] BasicSCSIHandler"
  have cdb0: "cdb c0 = 0x9e # 0x10 # [0, 0, 0, 0, 0, 0, 0, 0, 0, 0, 0, 32, 0, 0]"
    by (simp add: c0_def newCmd_def)
  have cdb1: "cdb c1 = 0x9e # 0x12 # [0, 0, 0, 0, 0, 0, 0, 0, 0, 0, 0, 32, 0, 0]"
    by (simp add: c1_def newCmd_def)
  have B0: "BlockSize (Sizes (device c0)) = 1024" and V0: "VolumeSize (Sizes (device c0)) = 1073741824"
    by (simp_all add: c0_def newCmd_def Sizes_def BasicSCSIHandler_def)
  have B1: "BlockSize (Sizes (device c1)) = 1024"
    by (simp add: c1_def newCmd_def Sizes_def BasicSCSIHandler_def)
  have nz0: "BlockSize (Sizes (device c0)) \<noteq> 0" by (simp add: B0)
  have nz1: "BlockSize (Sizes (device c1)) \<noteq> 0" by (simp add: B1)
  have ok0: "cursor_ok c0" by (simp add: c0_def newCmd_def cursor_ok_def)
  have ok1: "cursor_ok c1" by (simp add: c1_def newCmd_def cursor_ok_def)
  have p0: "pos c0 = 0" by (simp add: c0_def newCmd_def pos_def)
  have r0: "remaining c0 = 32" by (simp add: c0_def newCmd_def remaining_def pos_def)
  have i0: "id_cmd c0 = 1" by (simp add: c0_def newCmd_def)
  have v0: "concat (vecs c0) = replicate 32 0xff" by (simp add: c0_def newCmd_def)
  have sB: "sint (1024 :: 64 word) = 1024" and sV: "sint (1073741824 :: 64 word) = 1073741824"
    by simp_all
  from ServiceActionIn_ReadCapacity16 [OF cdb0 nz0 ok0] obtain c' buf where
    e: "EmulateServiceActionIn c0 = Inr (c', \<lparr>id_resp = id_cmd c0, status = 0x00, senseBuffer = []\<rparr>, None)"
    and l: "length buf = 32"
    and z: "drop 12 buf = replicate 20 0"
    and n1: "0 < sint (BlockSize (Sizes (device c0)))
                    \<and> sint (BlockSize (Sizes (device c0))) \<le> sint (VolumeSize (Sizes (device c0)))
                    \<longrightarrow> uint (Uint64 (take 8 buf)) =
                         sint (VolumeSize (Sizes (device c0))) div sint (BlockSize (Sizes (device c0))) - 1"
    and n2: "0 < sint (BlockSize (Sizes (device c0))) \<and> sint (BlockSize (Sizes (device c0))) < 2 ^ 32
                    \<longrightarrow> uint (Uint32 (take 4 (drop 8 buf))) = sint (BlockSize (Sizes (device c0)))"
    and v: "concat (vecs c') =
                   take (pos c0) (concat (vecs c0)) @ take (remaining c0) buf
                   @ drop (pos c0 + 32) (concat (vecs c0))"
    by blast
  have n1': "uint (Uint64 (take 8 buf)) = 2 ^ 20 - 1"
    using n1 unfolding B0 V0 sB sV by simp
  have n2': "uint (Uint32 (take 4 (drop 8 buf))) = 1024"
    using n2 unfolding B0 sB by simp
  have v': "concat (vecs c') = buf"
    using v l unfolding p0 r0 v0 by simp
  have A: "\<exists>c' buf. EmulateServiceActionIn c0 = Inr (c', \<lparr>id_resp = 1, status = 0x00, senseBuffer = []\<rparr>, None)
      \<and> length buf = 32
      \<and> uint (Uint64 (take 8 buf)) = 2 ^ 20 - 1
      \<and> uint (Uint32 (take 4 (drop 8 buf))) = 1024
      \<and> drop 12 buf = replicate 20 0
      \<and> concat (vecs c') = buf"
    using e l n1' n2' z v' unfolding i0 by blast
  have ne: "(0x12 :: byte) \<noteq> 0x10" by simp
  have B: "EmulateServiceActionIn c1 = Inr (c1, NotHandled c1, None)"
    using ServiceActionIn_ReadCapacity16 [OF cdb1 nz1 ok1] ne by blast
  show ?thesis using A B unfolding c0_def c1_def by (rule conjI)
qed

section \<open>Mode Select\<close>

lemma Read_any:
  assumes "cursor_ok c"
  shows "\<exists>c' b'. Read c b = Inr (c', b', min (length b) (remaining c),
                                 if remaining c < length b then Some EOF else None)
            \<and> length b' = length b"
proof -
  obtain c' where
    r: "read_loop c b 0 =
            Inr (c', overlay b 0 (take (min (length b - 0) (remaining c)) (drop (pos c) (concat (vecs c)))),
                 0 + min (length b - 0) (remaining c),
                 if remaining c < length b - 0 then Some EOF else None)"
    using read_loop_flat[OF assms, of 0 b] by blast
  have "length (overlay b 0 (take (min (length b - 0) (remaining c)) (drop (pos c) (concat (vecs c))))) = length b"
    using pos_le[OF assms] by (simp add: overlay_def remaining_def)
  then show ?thesis using r by (simp add: Read_def)
qed

text \<open>
  Whatever the parameter list holds, \<open>EmulateModeSelect\<close> with a non-zero allocation
  length never reaches its comparison: \<open>Read\<close> into the 512-byte buffer either runs out
  of vecs, so that \<open>EOF\<close> is returned as a Go error, or fills the buffer, which is the
  parameter list length error.
\<close>

lemma EmulateModeSelect_outcomes:
  assumes "cdb c = b0 # b1 # b2 # b3 # rest" and "XferLen c = Inr a" and "a \<noteq> 0"
    and "cursor_ok c"
  shows "\<exists>c'. EmulateModeSelect c wce =
           (if remaining c < 512 then Inr (c', emptyResponse, Some EOF)
            else Inr (c', CheckCondition c' SenseIllegalRequest AscParameterListLengthError, None))"
proof -
  from Read_any[OF assms(4), of "replicate 512 0"] obtain c' b' where
    r: "Read c (replicate 512 0) = Inr (c', b', min 512 (remaining c),
                                 if remaining c < 512 then Some EOF else None)"
    and l: "length b' = 512"
    by auto
  have g: "GetCDB c 0 = Inr b0" "GetCDB c 2 = Inr b2" "GetCDB c 3 = Inr b3"
    using assms(1) by (simp_all add: GetCDB_def)
  show ?thesis
    unfolding EmulateModeSelect_def g assms(2)
    using assms(3) l by (intro exI[of _ c']) (simp add: r Let_def)
qed


text \<open>
  C2. The claim fails on the code. On the Mode Select (6) CDB \<open>15 10 08 00 18 00\<close> (PF set,
  SP clear, page \<open>0x08\<close>, subpage 0, allocation length 24) with the 24-byte parameter
  list made of a 4-byte header and the emulator's own caching mode page, the
  emulator returns the Go error \<open>EOF\<close> with the zero response, where the claim says Good.
\<close>

theorem ModeSelect_matching_page_not_good:
  "EmulateModeSelect
     (newCmd 1 [0x15, 0x10, 0x08, 0x00, 24, 0x00]
        [[0, 0, 0, 0] @ CachingModePage [] False] BasicSCSIHandler) False
   = Inr ((newCmd 1 [0x15, 0x10, 0x08, 0x00, 24, 0x00]
             [[0, 0, 0, 0] @ CachingModePage [] False] BasicSCSIHandler)\<lparr>vecoffset := 1\<rparr>,
          emptyResponse, Some EOF)"
proof -
  define v where "v = [0, 0, 0, 0] @ CachingModePage [] False"
  define c0 where "c0 = newCmd 1 [0x15, 0x10, 0x08, 0x00, 24, 0x00] [v] BasicSCSIHandler"
  have lv: "length v = 24" by (simp add: v_def CachingModePage_def Let_def)
  have x: "XferLen c0 = Inr 24"
    by (simp add: XferLen_def CdbLen_def c0_def newCmd_def)
  have g: "GetCDB c0 0 = Inr 0x15" "GetCDB c0 2 = Inr 0x08" "GetCDB c0 3 = Inr 0x00"
    by (simp_all add: GetCDB_def c0_def newCmd_def)
  have r: "Read c0 (replicate 512 0) = Inr (c0\<lparr>vecoffset := 1\<rparr>, v @ replicate 488 0, 24, Some EOF)"
    unfolding Read_def
    apply (subst read_loop.simps, simp add: c0_def newCmd_def lv copy_into_def Let_def)
    apply (subst read_loop.simps, simp add: c0_def newCmd_def lv copy_into_def Let_def)
    done
  have "EmulateModeSelect c0 False = Inr (c0\<lparr>vecoffset := 1\<rparr>, emptyResponse, Some EOF)"
    unfolding EmulateModeSelect_def g x by (simp add: r Let_def)
  then show ?thesis unfolding c0_def v_def .
qed

section \<open>Fetching commands from the ring\<close>

lemma accessors_cmdTail [simp]:
  "mbCmdrOffset (d\<lparr>cmdTail := x\<rparr>) = mbCmdrOffset d"
  "mbCmdrSize (d\<lparr>cmdTail := x\<rparr>) = mbCmdrSize d"
  "mbCmdHead (d\<lparr>cmdTail := x\<rparr>) = mbCmdHead d"
  "mbCmdTail (d\<lparr>cmdTail := x\<rparr>) = mbCmdTail d"
  "entHdrOp (d\<lparr>cmdTail := x\<rparr>) off = entHdrOp d off"
  "entHdrGetLen (d\<lparr>cmdTail := x\<rparr>) off = entHdrGetLen d off"
  "entCmdId (d\<lparr>cmdTail := x\<rparr>) off = entCmdId d off"
  "entReqIovCnt (d\<lparr>cmdTail := x\<rparr>) off = entReqIovCnt d off"
  "entReqCdbOff (d\<lparr>cmdTail := x\<rparr>) off = entReqCdbOff d off"
  "cdbLen (d\<lparr>cmdTail := x\<rparr>) s = cdbLen d s"
  "entIovecN (d\<lparr>cmdTail := x\<rparr>) off = entIovecN d off"
  by (simp_all add: mbCmdrOffset_def mbCmdrSize_def mbCmdHead_def mbCmdTail_def entHdrOp_def
      entHdrGetLen_def entCmdId_def entReqIovCnt_def entReqCdbOff_def cdbLen_def entIovecN_def
      fun_eq_iff Let_def cong: if_cong)

lemma derived_cmdTail [simp]:
  "entCdb (d\<lparr>cmdTail := x\<rparr>) off = entCdb d off"
  "decode_cmd (d\<lparr>cmdTail := x\<rparr>) off = decode_cmd d off"
  "tail_after (d\<lparr>cmdTail := x\<rparr>) t off = tail_after d t off"
  "headEntryOff (d\<lparr>cmdTail := x\<rparr>) = headEntryOff d"
  by (simp_all add: entCdb_def decode_cmd_def tail_after_def headEntryOff_def Let_def cong: if_cong)

lemma entry_at_cmdTail [simp]: "entry_at (d\<lparr>cmdTail := x\<rparr>) off e = entry_at d off e"
  by (cases e) simp_all

lemma ring_holds_cmdTail [simp]: "ring_holds (d\<lparr>cmdTail := x\<rparr>) t es = ring_holds d t es"
  by (induction es arbitrary: t) (simp_all split: sum.splits)

text \<open>Whatever \<open>getNextCommand\<close> returns, it returns the device with only the local tail changed.\<close>

lemma getNextCommand_frame_aux:
  assumes "getNextCommand d = Some r"
  shows "\<forall>c d'. r = Inr (c, d') \<longrightarrow> (\<exists>t. d' = d\<lparr>cmdTail := t\<rparr>)"
  using assms
proof (induction rule: getNextCommand.raw_induct[rotated 1, consumes 1, case_names step])
  case (step getNext d r)
  note IH = step(1) and eq = step(2)
  show ?case
  proof (intro allI impI)
    fix c d' assume r: "r = Inr (c, d')"
    show "\<exists>t. d' = d\<lparr>cmdTail := t\<rparr>"
    proof (cases "nextEntryOff d")
      case (Inl e) with eq r show ?thesis by simp
    next
      case off: (Inr off)
      show ?thesis
      proof (cases "headEntryOff d")
        case (Inl e) with eq r off show ?thesis by simp
      next
        case hoff: (Inr hoff)
        show ?thesis
        proof (cases "off = hoff")
          case True
          with eq r off hoff have "d' = d" by simp
          then have "d' = d\<lparr>cmdTail := cmdTail d\<rparr>" by simp
          then show ?thesis by blast
        next
          case ne: False
          show ?thesis
          proof (cases "entHdrOp d off")
            case (Inl e) with eq r off hoff ne show ?thesis by simp
          next
            case op: (Inr op)
            show ?thesis
            proof (cases "tail_after d (cmdTail d) off")
              case (Inl e)
              with eq r off hoff ne op show ?thesis
                by (simp split: if_splits sum.splits)
            next
              case t: (Inr t)
              consider (pad) "op = tcmuOpPad" | (cmd) "op \<noteq> tcmuOpPad" "op = tcmuOpCmd"
                | (other) "op \<noteq> tcmuOpPad" "op \<noteq> tcmuOpCmd"
                by blast
              then show ?thesis
              proof cases
                case pad
                with eq r off hoff ne op t
                have "getNext (d\<lparr>cmdTail := t\<rparr>) = Some r" by simp
                from IH[OF this] r obtain t' where "d' = d\<lparr>cmdTail := t, cmdTail := t'\<rparr>" by blast
                then have "d' = d\<lparr>cmdTail := t'\<rparr>" by simp
                then show ?thesis by blast
              next
                case cmd
                with eq r off hoff ne op t
                have "d' = d\<lparr>cmdTail := t\<rparr>" by (simp split: sum.splits)
                then show ?thesis by blast
              next
                case other
                with eq r off hoff ne op t
                show ?thesis by simp
              qed
            qed
          qed
        qed
      qed
    qed
  qed
qed

lemma getNextCommand_frame:
  "getNextCommand d = Some (Inr (c, d')) \<Longrightarrow> \<exists>t. d' = d\<lparr>cmdTail := t\<rparr>"
  using getNextCommand_frame_aux by blast

lemma drain_frame_aux:
  assumes "drain d cmdChan = Some r"
  shows "\<forall>cs d'. r = Inr (cs, d') \<longrightarrow> (\<exists>t. d' = d\<lparr>cmdTail := t\<rparr>)"
  using assms
proof (induction rule: drain.raw_induct[rotated 1, consumes 1, case_names step])
  case (step drn d cmdChan r)
  note IH = step(1) and eq = step(2)
  show ?case
  proof (intro allI impI)
    fix cs d' assume r: "r = Inr (cs, d')"
    show "\<exists>t. d' = d\<lparr>cmdTail := t\<rparr>"
    proof (cases "getNextCommand d")
      case None with eq show ?thesis by simp
    next
      case (Some g)
      show ?thesis
      proof (cases g)
        case (Inl e) with eq r Some show ?thesis by simp
      next
        case (Inr p)
        obtain co d1 where p: "p = (co, d1)" by (cases p)
        from getNextCommand_frame[of d co d1] Some Inr p
        obtain t1 where d1: "d1 = d\<lparr>cmdTail := t1\<rparr>" by blast
        show ?thesis
        proof (cases co)
          case None
          with eq r Some Inr p have "d' = d1" by simp
          with d1 show ?thesis by blast
        next
          case (Some c)
          with eq \<open>getNextCommand d = Some g\<close> Inr p
          have "drn d1 (cmdChan @ [c]) = Some r" by simp
          from IH[OF this] r obtain t' where "d' = d1\<lparr>cmdTail := t'\<rparr>" by blast
          then have "d' = d\<lparr>cmdTail := t'\<rparr>" by (simp add: d1)
          then show ?thesis by blast
        qed
      qed
    qed
  qed
qed

lemma drain_frame:
  "drain d cmdChan = Some (Inr (cs, d')) \<Longrightarrow> \<exists>t. d' = d\<lparr>cmdTail := t\<rparr>"
  using drain_frame_aux by blast


lemma walk_Nil [simp]: "walk sz t [] = t"
  by (simp add: walk_def)

lemma walk_Cons [simp]: "walk sz t (e # es) = walk sz ((t + entry_len e) mod sz) es"
  by (simp add: walk_def)

lemma walk_append: "walk sz t (xs @ ys) = walk sz (walk sz t xs) ys"
  by (simp add: walk_def)

lemma cmds_of_pads: "\<forall>e\<in>set ps. is_pad e \<Longrightarrow> cmds_of (ps @ es) = cmds_of es"
proof (induction ps)
  case Nil then show ?case by simp
next
  case (Cons p ps) then show ?case by (cases p) simp_all
qed

lemma getNextCommand_at_head:
  assumes "ring_holds d (cmdTail d) []"
  shows "getNextCommand d = Some (Inr (None, d))"
proof -
  from assms obtain ro where ro: "mbCmdrOffset d = Inr ro" and h: "mbCmdHead d = Inr (cmdTail d)"
    by (auto split: sum.splits)
  show ?thesis
    by (subst getNextCommand.simps) (simp add: nextEntryOff_def headEntryOff_def ro h)
qed

lemma ring_holds_ConsD:
  assumes "ring_holds d t (e # es)" and "mbCmdrSize d = Inr sz"
  obtains ro h where "mbCmdrOffset d = Inr ro" "mbCmdHead d = Inr h" "h \<noteq> t" "sz \<noteq> 0"
    "entry_at d (t + ro) e" "ring_holds d ((t + entry_len e) mod sz) es"
  using assms by (auto split: sum.splits)

lemma getNextCommand_pads:
  assumes "ring_holds d (cmdTail d) ps" and "mbCmdrSize d = Inr sz" and "\<forall>e\<in>set ps. is_pad e"
  shows "getNextCommand d = Some (Inr (None, d\<lparr>cmdTail := walk sz (cmdTail d) ps\<rparr>))"
  using assms
proof (induction ps arbitrary: d)
  case Nil
  then show ?case using getNextCommand_at_head by simp
next
  case (Cons p ps)
  from Cons.prems(3) obtain l where p: "p = Pad l" by (cases p) auto
  from Cons.prems(1,2) obtain ro h where
    ro: "mbCmdrOffset d = Inr ro" and h: "mbCmdHead d = Inr h" and ne: "h \<noteq> cmdTail d"
    and sz: "sz \<noteq> 0" and at: "entry_at d (cmdTail d + ro) p"
    and rest: "ring_holds d ((cmdTail d + entry_len p) mod sz) ps"
    by (rule ring_holds_ConsD)
  define d1 where "d1 = d\<lparr>cmdTail := (cmdTail d + l) mod sz\<rparr>"
  have ta: "tail_after d (cmdTail d) (cmdTail d + ro) = Inr ((cmdTail d + l) mod sz)"
    using at sz Cons.prems(2) by (simp add: p tail_after_def)
  have step: "getNextCommand d = getNextCommand d1"
    using at ne ta
    by (subst getNextCommand.simps) (simp add: nextEntryOff_def headEntryOff_def ro h p d1_def)
  have "getNextCommand d1 = Some (Inr (None, d1\<lparr>cmdTail := walk sz (cmdTail d1) ps\<rparr>))"
    using rest Cons.prems(2,3) by (intro Cons.IH) (simp_all add: d1_def p)
  then show ?case by (simp add: step d1_def p)
qed

lemma getNextCommand_cmd:
  assumes "ring_holds d (cmdTail d) (ps @ Cmd l c # es)" and "mbCmdrSize d = Inr sz"
    and "\<forall>e\<in>set ps. is_pad e"
  shows "getNextCommand d =
           Some (Inr (Some c, d\<lparr>cmdTail := walk sz (cmdTail d) (ps @ [Cmd l c])\<rparr>))
       \<and> ring_holds d (walk sz (cmdTail d) (ps @ [Cmd l c])) es"
  using assms
proof (induction ps arbitrary: d)
  case Nil
  from Nil.prems(1,2) obtain ro h where
    ro: "mbCmdrOffset d = Inr ro" and h: "mbCmdHead d = Inr h" and ne: "h \<noteq> cmdTail d"
    and sz: "sz \<noteq> 0" and at: "entry_at d (cmdTail d + ro) (Cmd l c)"
    and rest: "ring_holds d ((cmdTail d + entry_len (Cmd l c)) mod sz) es"
    using ring_holds_ConsD[of d "cmdTail d" "Cmd l c" es sz] by auto
  have ta: "tail_after d (cmdTail d) (cmdTail d + ro) = Inr ((cmdTail d + l) mod sz)"
    using at sz Nil.prems(2) by (simp add: tail_after_def)
  have "getNextCommand d = Some (Inr (Some c, d\<lparr>cmdTail := (cmdTail d + l) mod sz\<rparr>))"
    using at ne ta
    by (subst getNextCommand.simps)
       (simp add: nextEntryOff_def headEntryOff_def ro h tcmuOpPad_def tcmuOpCmd_def)
  then show ?case using rest by simp
next
  case (Cons p ps)
  from Cons.prems(3) obtain l' where p: "p = Pad l'" by (cases p) auto
  from Cons.prems(1,2) obtain ro h where
    ro: "mbCmdrOffset d = Inr ro" and h: "mbCmdHead d = Inr h" and ne: "h \<noteq> cmdTail d"
    and sz: "sz \<noteq> 0" and at: "entry_at d (cmdTail d + ro) p"
    and rest: "ring_holds d ((cmdTail d + entry_len p) mod sz) (ps @ Cmd l c # es)"
    using ring_holds_ConsD[of d "cmdTail d" p "ps @ Cmd l c # es" sz] by auto
  define d1 where "d1 = d\<lparr>cmdTail := (cmdTail d + l') mod sz\<rparr>"
  have ta: "tail_after d (cmdTail d) (cmdTail d + ro) = Inr ((cmdTail d + l') mod sz)"
    using at sz Cons.prems(2) by (simp add: p tail_after_def)
  have step: "getNextCommand d = getNextCommand d1"
    using at ne ta
    by (subst getNextCommand.simps) (simp add: nextEntryOff_def headEntryOff_def ro h p d1_def)
  have "getNextCommand d1 =
           Some (Inr (Some c, d1\<lparr>cmdTail := walk sz (cmdTail d1) (ps @ [Cmd l c])\<rparr>))
       \<and> ring_holds d1 (walk sz (cmdTail d1) (ps @ [Cmd l c])) es"
    using rest Cons.prems(2,3) by (intro Cons.IH) (simp_all add: d1_def p)
  then show ?case by (simp add: step d1_def p)
qed

lemma split_pads_disj:
  "(\<forall>e\<in>set es. is_pad e) \<or> (\<exists>ps l c rest. es = ps @ Cmd l c # rest \<and> (\<forall>e\<in>set ps. is_pad e))"
proof (induction es)
  case Nil
  show ?case by simp
next
  case (Cons e es)
  show ?case
  proof (cases e)
    case (Cmd l c)
    have "e # es = [] @ Cmd l c # es \<and> (\<forall>x\<in>set []. is_pad x)" using Cmd by simp
    then show ?thesis by blast
  next
    case (Pad l)
    from Cons.IH show ?thesis
    proof
      assume "\<forall>x\<in>set es. is_pad x"
      then have "\<forall>x\<in>set (e # es). is_pad x" using Pad by simp
      then show ?thesis ..
    next
      assume "\<exists>ps l c rest. es = ps @ Cmd l c # rest \<and> (\<forall>e\<in>set ps. is_pad e)"
      then obtain ps l' c rest where "es = ps @ Cmd l' c # rest" "\<forall>x\<in>set ps. is_pad x" by blast
      then have "e # es = (e # ps) @ Cmd l' c # rest \<and> (\<forall>x\<in>set (e # ps). is_pad x)"
        using Pad by simp
      then show ?thesis by blast
    qed
  qed
qed

lemma split_pads:
  obtains (all_pads) "\<forall>e\<in>set es. is_pad e"
  | (cmd) ps l c rest where "es = ps @ Cmd l c # rest" "\<forall>e\<in>set ps. is_pad e"
  using split_pads_disj[of es] by blast

lemma drain_ring_holds:
  assumes "ring_holds d (cmdTail d) es" and "mbCmdrSize d = Inr sz"
  shows "drain d cmdChan = Some (Inr (cmdChan @ cmds_of es, d\<lparr>cmdTail := walk sz (cmdTail d) es\<rparr>))"
  using assms
proof (induction "length es" arbitrary: es d cmdChan rule: less_induct)
  case less
  show ?case
  proof (cases es rule: split_pads)
    case all_pads
    have g: "getNextCommand d = Some (Inr (None, d\<lparr>cmdTail := walk sz (cmdTail d) es\<rparr>))"
      using less.prems all_pads by (rule getNextCommand_pads)
    have c: "cmds_of es = []" using cmds_of_pads[OF all_pads, of "[]"] by simp
    show ?thesis by (subst drain.simps) (simp add: g c)
  next
    case (cmd ps l c rest)
    define d1 where "d1 = d\<lparr>cmdTail := walk sz (cmdTail d) (ps @ [Cmd l c])\<rparr>"
    have g: "getNextCommand d = Some (Inr (Some c, d1))"
      and r: "ring_holds d (walk sz (cmdTail d) (ps @ [Cmd l c])) rest"
      using getNextCommand_cmd[of d ps l c rest sz] less.prems cmd by (simp_all add: d1_def)
    have r1: "ring_holds d1 (cmdTail d1) rest" using r by (simp add: d1_def)
    have s1: "mbCmdrSize d1 = Inr sz" using less.prems(2) by (simp add: d1_def)
    have "length rest < length es" using cmd(1) by simp
    from less.hyps[OF this r1 s1, of "cmdChan @ [c]"]
    have "drain d1 (cmdChan @ [c]) =
            Some (Inr ((cmdChan @ [c]) @ cmds_of rest, d1\<lparr>cmdTail := walk sz (cmdTail d1) rest\<rparr>))" .
    moreover have "walk sz (cmdTail d1) rest = walk sz (cmdTail d) es"
      unfolding cmd(1) by (simp add: d1_def walk_append)
    moreover have "cmds_of es = c # cmds_of rest"
      unfolding cmd(1) using cmds_of_pads[OF cmd(2)] by simp
    ultimately show ?thesis
      by (subst drain.simps) (simp add: g d1_def)
  qed
qed


lemma unat_walk:
  assumes "t < sz"
    and "\<forall>e\<in>set es. unat (entry_len e) + unat sz \<le> 2 ^ 32"
  shows "unat (walk sz t es) = (unat t + sum_list (map (\<lambda>x. unat (entry_len x)) es)) mod unat sz"
  using assms
proof (induction es arbitrary: t)
  case Nil
  then show ?case by (simp add: word_less_nat_alt)
next
  case (Cons e es)
  define l where "l = entry_len e"
  have ne: "sz \<noteq> 0" using Cons.prems(1) by auto
  have b: "unat l + unat sz \<le> 2 ^ 32" using Cons.prems(2) by (simp add: l_def)
  have "unat t < unat sz" using Cons.prems(1) by (simp add: word_less_nat_alt)
  then have "unat t + unat l < 2 ^ 32" using b by simp
  then have add: "unat (t + l) = unat t + unat l"
    by (simp add: unat_add_lem [THEN iffD1])
  have t1: "(t + l) mod sz < sz" using ne by (simp add: word_mod_less_divisor word_neq_0_conv [THEN iffD1])
  have u1: "unat ((t + l) mod sz) = (unat t + unat l) mod unat sz"
    by (simp add: unat_mod add)
  have "unat (walk sz ((t + l) mod sz) es)
        = (unat ((t + l) mod sz) + sum_list (map (\<lambda>x. unat (entry_len x)) es)) mod unat sz"
    using t1 Cons.prems(2) by (intro Cons.IH) simp_all
  also have "\<dots> = (unat t + unat l + sum_list (map (\<lambda>x. unat (entry_len x)) es)) mod unat sz"
    unfolding u1 by (simp add: mod_add_left_eq)
  finally show ?case by (simp add: l_def add.assoc)
qed

lemma ring_holds_head:
  assumes "ring_holds d t es" and "mbCmdrSize d = Inr sz"
  shows "mbCmdHead d = Inr (walk sz t es)"
  using assms
proof (induction es arbitrary: t)
  case Nil
  then show ?case by (auto split: sum.splits)
next
  case (Cons e es)
  from Cons.prems have "ring_holds d ((t + entry_len e) mod sz) es"
    by (auto split: sum.splits)
  from Cons.IH[OF this Cons.prems(2)] show ?case by simp
qed

text \<open>
  C6. When the ring holds the entries \<open>es\<close> between the local tail and the head,
  draining it sends exactly the commands of the cmd entries of \<open>es\<close>, in ring order,
  to the command channel, and leaves the local tail where the walk over all entries
  ends, each entry, pad or cmd, advancing it by its length modulo the ring size; that
  is the head. With the tail below the ring size and no 32-bit overflow the tail
  advances by the sum of the entry lengths modulo the ring size; for
  \<open>[pad(16), cmd(48), pad(16), cmd(48)]\<close> that is two commands and 128 bytes.
\<close>

theorem drain_ring:
  assumes "ring_holds d (cmdTail d) es" and "mbCmdrSize d = Inr sz"
  shows "drain d cmdChan =
           Some (Inr (cmdChan @ cmds_of es, d\<lparr>cmdTail := walk sz (cmdTail d) es\<rparr>))
       \<and> mbCmdHead d = Inr (walk sz (cmdTail d) es)
       \<and> (cmdTail d < sz \<and> (\<forall>e\<in>set es. unat (entry_len e) + unat sz \<le> 2 ^ 32) \<longrightarrow>
            unat (walk sz (cmdTail d) es) =
              (unat (cmdTail d) + sum_list (map (\<lambda>x. unat (entry_len x)) es)) mod unat sz)
       \<and> ((\<exists>c1 c2. es = [Pad 16, Cmd 48 c1, Pad 16, Cmd 48 c2]) \<and> cmdTail d < sz
             \<and> unat sz + 48 \<le> 2 ^ 32 \<longrightarrow>
            length (cmds_of es) = 2
            \<and> unat (walk sz (cmdTail d) es) = (unat (cmdTail d) + 128) mod unat sz)"
proof -
  have a: "drain d cmdChan =
           Some (Inr (cmdChan @ cmds_of es, d\<lparr>cmdTail := walk sz (cmdTail d) es\<rparr>))"
    using assms by (rule drain_ring_holds)
  have b: "mbCmdHead d = Inr (walk sz (cmdTail d) es)"
    using assms by (rule ring_holds_head)
  have c: "unat (walk sz (cmdTail d) es) =
              (unat (cmdTail d) + sum_list (map (\<lambda>x. unat (entry_len x)) es)) mod unat sz"
    if "cmdTail d < sz" "\<forall>e\<in>set es. unat (entry_len e) + unat sz \<le> 2 ^ 32"
    using that by (rule unat_walk)
  have e: "length (cmds_of es) = 2
            \<and> unat (walk sz (cmdTail d) es) = (unat (cmdTail d) + 128) mod unat sz"
    if es: "es = [Pad 16, Cmd 48 c1, Pad 16, Cmd 48 c2]" and t: "cmdTail d < sz"
      and s: "unat sz + 48 \<le> 2 ^ 32" for c1 c2
  proof -
    have "\<forall>e\<in>set es. unat (entry_len e) + unat sz \<le> 2 ^ 32"
      using s by (simp add: es)
    from unat_walk[OF t this] show ?thesis by (simp add: es)
  qed
  show ?thesis using a b c e by blast
qed

lemma example_holds:
  "ring_holds example_device 0
     [Pad 16, Cmd 48 (newCmd 7 [0, 0, 0, 0, 0, 0] [] BasicSCSIHandler),
      Pad 16, Cmd 48 (newCmd 8 [0x12, 0, 0, 0, 36, 0] [] BasicSCSIHandler)]"
  by code_simp

lemma example_size: "mbCmdrSize example_device = Inr 256"
  by code_simp

theorem drain_ring_witness:
  "drain example_device [] =
     Some (Inr ([newCmd 7 [0, 0, 0, 0, 0, 0] [] BasicSCSIHandler,
                 newCmd 8 [0x12, 0, 0, 0, 36, 0] [] BasicSCSIHandler],
                example_device\<lparr>cmdTail := 128\<rparr>))
   \<and> mbCmdHead example_device = Inr 128"
proof -
  have t: "cmdTail example_device = 0" by (simp add: example_device_def)
  have h: "ring_holds example_device (cmdTail example_device)
     [Pad 16, Cmd 48 (newCmd 7 [0, 0, 0, 0, 0, 0] [] BasicSCSIHandler),
      Pad 16, Cmd 48 (newCmd 8 [0x12, 0, 0, 0, 36, 0] [] BasicSCSIHandler)]"
    unfolding t by (rule example_holds)
  have w: "walk 256 0
     [Pad 16, Cmd 48 (newCmd 7 [0, 0, 0, 0, 0, 0] [] BasicSCSIHandler),
      Pad 16, Cmd 48 (newCmd 8 [0x12, 0, 0, 0, 36, 0] [] BasicSCSIHandler)] = 128"
    by simp
  show ?thesis
    using drain_ring [OF h example_size, of "[]"] unfolding t w by simp
qed

section \<open>The reader and the shared tail\<close>

lemma example2_tail: "mbCmdTail example_device2 = Inr 0"
  by code_simp

lemma example2_completed_tail:
  "(case completeCommand example_device2 \<lparr>id_resp = 7, status = 0, senseBuffer = []\<rparr> of
      Some (Inr d') \<Rightarrow> mbCmdTail d'
    | _ \<Rightarrow> Inl OutsideMmap) = Inr 128"
  by code_simp

lemma example_next:
  "getNextCommand example_device =
     Some (Inr (Some (newCmd 7 [0, 0, 0, 0, 0, 0] [] BasicSCSIHandler), example_device\<lparr>cmdTail := 64\<rparr>))"
  by code_simp

lemma example_drain:
  "drain example_device [] =
     Some (Inr ([newCmd 7 [0, 0, 0, 0, 0, 0] [] BasicSCSIHandler,
                 newCmd 8 [0x12, 0, 0, 0, 36, 0] [] BasicSCSIHandler],
                example_device\<lparr>cmdTail := 128\<rparr>))"
  by code_simp

lemma example_tail: "mbCmdTail example_device = Inr 0"
  by code_simp

text \<open>
  C7. Whenever \<open>getNextCommand\<close> returns, with a command or with none, the device it
  leaves has the mapping of the device it started from, byte for byte, so the shared
  tail word at offset 64 reads as before; the descriptor's writes and the handler are
  as before too, and only the local tail may differ. The same holds for the loop of
  \<^verbatim>\<open>beginPoll\<close> that calls it until the ring is drained. The completion path is
  what moves the shared tail: on the second example mapping it stands at 0 before
  \<open>completeCommand\<close> and at 128 after it.
\<close>

theorem getNextCommand_keeps_mmap:
  "(getNextCommand d = Some (Inr (c, d')) \<longrightarrow>
      mmap d' = mmap d \<and> mbCmdTail d' = mbCmdTail d \<and> uioWrites d' = uioWrites d \<and> scsi d' = scsi d)
   \<and> (drain d cmdChan = Some (Inr (cs, d'')) \<longrightarrow>
      mmap d'' = mmap d \<and> mbCmdTail d'' = mbCmdTail d \<and> uioWrites d'' = uioWrites d \<and> scsi d'' = scsi d)
   \<and> mbCmdTail example_device2 = Inr 0
   \<and> (case completeCommand example_device2 \<lparr>id_resp = 7, status = 0, senseBuffer = []\<rparr> of
         Some (Inr d') \<Rightarrow> mbCmdTail d'
       | _ \<Rightarrow> Inl OutsideMmap) = Inr 128"
proof (intro conjI impI)
  assume "getNextCommand d = Some (Inr (c, d'))"
  from getNextCommand_frame[OF this] obtain t where e: "d' = d\<lparr>cmdTail := t\<rparr>" by blast
  show "mmap d' = mmap d" "mbCmdTail d' = mbCmdTail d" "uioWrites d' = uioWrites d" "scsi d' = scsi d"
    by (simp_all add: e)
next
  assume "drain d cmdChan = Some (Inr (cs, d''))"
  from drain_frame[OF this] obtain t where e: "d'' = d\<lparr>cmdTail := t\<rparr>" by blast
  show "mmap d'' = mmap d" "mbCmdTail d'' = mbCmdTail d" "uioWrites d'' = uioWrites d" "scsi d'' = scsi d"
    by (simp_all add: e)
next
  show "mbCmdTail example_device2 = Inr 0" by (rule example2_tail)
next
  show "(case completeCommand example_device2 \<lparr>id_resp = 7, status = 0, senseBuffer = []\<rparr> of
         Some (Inr d') \<Rightarrow> mbCmdTail d'
       | _ \<Rightarrow> Inl OutsideMmap) = Inr 128" by (rule example2_completed_tail)
qed

theorem getNextCommand_keeps_mmap_witness:
  "getNextCommand example_device =
     Some (Inr (Some (newCmd 7 [0, 0, 0, 0, 0, 0] [] BasicSCSIHandler), example_device\<lparr>cmdTail := 64\<rparr>))
   \<and> mmap (example_device\<lparr>cmdTail := 64\<rparr>) = example_mmap
   \<and> mbCmdTail (example_device\<lparr>cmdTail := 64\<rparr>) = Inr 0
   \<and> drain example_device [] =
     Some (Inr ([newCmd 7 [0, 0, 0, 0, 0, 0] [] BasicSCSIHandler,
                 newCmd 8 [0x12, 0, 0, 0, 36, 0] [] BasicSCSIHandler],
                example_device\<lparr>cmdTail := 128\<rparr>))
   \<and> mmap (example_device\<lparr>cmdTail := 128\<rparr>) = example_mmap
   \<and> mbCmdTail (example_device\<lparr>cmdTail := 128\<rparr>) = Inr 0"
proof -
  note T = getNextCommand_keeps_mmap [of example_device
      "Some (newCmd 7 [0, 0, 0, 0, 0, 0] [] BasicSCSIHandler)" "example_device\<lparr>cmdTail := 64\<rparr>"
      "[]" "[newCmd 7 [0, 0, 0, 0, 0, 0] [] BasicSCSIHandler,
                 newCmd 8 [0x12, 0, 0, 0, 36, 0] [] BasicSCSIHandler]"
      "example_device\<lparr>cmdTail := 128\<rparr>"]
  have m: "mmap example_device = example_mmap" by (simp add: example_device_def)
  have a: "mmap (example_device\<lparr>cmdTail := 64\<rparr>) = example_mmap"
    and b: "mbCmdTail (example_device\<lparr>cmdTail := 64\<rparr>) = Inr 0"
    using T example_next unfolding m example_tail by (elim conjE, simp)+
  have c: "mmap (example_device\<lparr>cmdTail := 128\<rparr>) = example_mmap"
    and e: "mbCmdTail (example_device\<lparr>cmdTail := 128\<rparr>) = Inr 0"
    using T example_drain unfolding m example_tail by (elim conjE, simp)+
  show ?thesis
    by (rule conjI [OF example_next conjI [OF a conjI [OF b conjI [OF example_drain conjI [OF c e]]]]])
qed

section \<open>Completing a command\<close>

subsection \<open>Overlays and little-endian words\<close>

lemma nth_overlay:
  assumes "a + length bs \<le> length m" and "i < length m"
  shows "overlay m a bs ! i = (if a \<le> i \<and> i < a + length bs then bs ! (i - a) else m ! i)"
proof -
  have la: "length (take a m) = a" using assms(1) by simp
  consider "i < a" | "a \<le> i" "i < a + length bs" | "a + length bs \<le> i" by linarith
  then show ?thesis
  proof cases
    case 1
    then show ?thesis using assms by (simp add: overlay_def nth_append)
  next
    case 2
    then have "i - a < length bs" by linarith
    then show ?thesis using 2 assms by (simp add: overlay_def nth_append)
  next
    case 3
    then have e: "i - a - length bs + (a + length bs) = i" and n: "\<not> i - a < length bs" "\<not> i < a"
      by linarith+
    show ?thesis using 3 assms n e by (simp add: overlay_def nth_append add.commute)
  qed
qed

lemma window_overlay_out:
  assumes "a + length bs \<le> length m" and "i + n \<le> a \<or> a + length bs \<le> i"
  shows "take n (drop i (overlay m a bs)) = take n (drop i m)"
proof (rule nth_equalityI)
  show "length (take n (drop i (overlay m a bs))) = length (take n (drop i m))"
    using assms(1) by (simp add: length_overlay)
next
  fix j assume "j < length (take n (drop i (overlay m a bs)))"
  then have "j < n \<and> j < length m - i" using assms(1) by (simp add: length_overlay)
  then have j: "j < n" "i + j < length m" by linarith+
  have "overlay m a bs ! (i + j) = m ! (i + j)"
    using nth_overlay[OF assms(1) j(2)] assms(2) j(1) by auto
  then show "take n (drop i (overlay m a bs)) ! j = take n (drop i m) ! j"
    using j assms(1) by (simp add: length_overlay)
qed

lemma window_overlay_in:
  assumes "a + length bs \<le> length m"
  shows "take (length bs) (drop a (overlay m a bs)) = bs"
  using assms by (simp add: overlay_def)

lemma overlay_again:
  assumes "length bs' = length bs" and "a + length bs \<le> length m"
  shows "overlay (overlay m a bs) a bs' = overlay m a bs'"
  using assms by (simp add: overlay_def)

lemma update_overlay: "k < length m \<Longrightarrow> m[k := v] = overlay m k [v]"
  by (simp add: overlay_def upd_conv_take_nth_drop)

lemma length_le_put [simp]: "length (le_put n w) = n"
  by (simp add: le_put_def)

lemma le_bytes_le_put: "(le_bytes (le_put n w) :: 'a::len word) = take_bit (8 * n) (w :: 'a word)"
  by (simp add: le_bytes_def le_put_def be_bytes_be_put)

lemma le32_roundtrip: "(le_bytes (le_put 4 w) :: 32 word) = w"
  by (simp add: le_bytes_le_put take_bit_word_eq_self)

lemma le16_roundtrip: "(le_bytes (le_put 2 w) :: 16 word) = w"
  by (simp add: le_bytes_le_put take_bit_word_eq_self)

lemma peek_ok:
  assumes "0 \<le> sint i" and "nat (sint i) + n \<le> length m" and "0 < n"
  shows "peek m i n = Inr (take n (drop (nat (sint i)) m))"
  using assms by (simp add: peek_def in_range_def)

lemma sint_plus:
  assumes "0 \<le> sint (a :: goint)" and "0 \<le> sint (b :: goint)" and "sint a + sint b < 2 ^ 31"
  shows "sint (a + b) = sint a + sint b"
  using assms by (simp add: sint_word_ariths signed_take_bit_int_eq_self)

subsection \<open>Skipping to the first cmd entry\<close>

lemma peek_retail:
  assumes "68 \<le> length m" and "length tb = 4" and "0 \<le> sint i"
    and "nat (sint i) + n \<le> 64 \<or> 68 \<le> nat (sint i)"
  shows "peek (overlay m 64 tb) i n = peek m i n"
proof -
  have l: "length (overlay m 64 tb) = length m" using assms(1,2) by (simp add: length_overlay)
  have w: "take n (drop (nat (sint i)) (overlay m 64 tb)) = take n (drop (nat (sint i)) m)"
    using assms by (intro window_overlay_out) auto
  show ?thesis by (simp add: peek_def in_range_def l w)
qed

lemma retail_accessors:
  assumes "68 \<le> length (mmap d)" and "length tb = 4" and "mmap d1 = overlay (mmap d) 64 tb"
  shows "mbCmdrOffset d1 = mbCmdrOffset d"
    and "mbCmdrSize d1 = mbCmdrSize d"
    and "mbCmdTail d1 = Inr (le_bytes tb)"
    and "68 \<le> sint off \<Longrightarrow> entHdrOp d1 off = entHdrOp d off"
    and "68 \<le> sint off \<Longrightarrow> entHdrGetLen d1 off = entHdrGetLen d off"
proof -
  show "mbCmdrOffset d1 = mbCmdrOffset d"
    unfolding mbCmdrOffset_def assms(3) using assms(1,2) by (subst peek_retail) simp_all
  show "mbCmdrSize d1 = mbCmdrSize d"
    unfolding mbCmdrSize_def assms(3) using assms(1,2) by (subst peek_retail) simp_all
  have "peek (overlay (mmap d) 64 tb) 64 4 = Inr tb"
    using assms(1,2) window_overlay_in[of 64 tb "mmap d"]
    by (simp add: peek_def in_range_def length_overlay)
  then show "mbCmdTail d1 = Inr (le_bytes tb)"
    by (simp add: mbCmdTail_def assms(3))
  have far: "peek (overlay (mmap d) 64 tb) (off + 0) 4 = peek (mmap d) (off + 0) 4" if "68 \<le> sint off"
  proof -
    have "0 \<le> sint off" "68 \<le> nat (sint off)" using that by simp_all
    then show ?thesis using assms(1,2) by (simp add: peek_retail)
  qed
  show "entHdrOp d1 off = entHdrOp d off" if "68 \<le> sint off"
    unfolding entHdrOp_def assms(3) offLenOp_def by (simp only: far[OF that])
  show "entHdrGetLen d1 off = entHdrGetLen d off" if "68 \<le> sint off"
    unfolding entHdrGetLen_def assms(3) offLenOp_def by (simp only: far[OF that])
qed

lemma skip_walk_Nil [simp]: "skip_walk sz t [] = t"
  by (simp add: skip_walk_def)

lemma skip_walk_Cons [simp]: "skip_walk sz t (l # ls) = skip_walk sz ((t + l) mod sz) ls"
  by (simp add: skip_walk_def)

lemma skip_loop_reaches_cmd:
  assumes "68 \<le> length (mmap d)" and "mbCmdrOffset d = Inr ro" and "mbCmdrSize d = Inr sz"
    and "tail_skips d t ls"
    and "length tb = 4" and "le_bytes tb = t" and "mmap d1 = overlay (mmap d) 64 tb"
  shows "\<exists>tb'. length tb' = 4 \<and> le_bytes tb' = skip_walk sz t ls
           \<and> skip_loop d1 (t + ro) =
               Some (Inr (d1\<lparr>mmap := overlay (mmap d) 64 tb'\<rparr>, skip_walk sz t ls + ro))"
  using assms(4-7)
proof (induction ls arbitrary: t tb d1)
  case Nil
  from Nil.prems(1) have far: "68 \<le> sint (t + ro)" and op: "entHdrOp d (t + ro) = Inr tcmuOpCmd"
    by (simp_all add: assms(2))
  have op1: "entHdrOp d1 (t + ro) = Inr tcmuOpCmd"
    using retail_accessors(4)[OF assms(1) Nil.prems(2,4) far] op by simp
  have "skip_loop d1 (t + ro) = Some (Inr (d1, t + ro))"
    by (subst skip_loop.simps) (simp add: op1)
  moreover have "d1\<lparr>mmap := overlay (mmap d) 64 tb\<rparr> = d1"
    using Nil.prems(4) by simp
  ultimately show ?case using Nil.prems(2,3) by (intro exI[of _ tb]) simp
next
  case (Cons l ls)
  from Cons.prems(1) obtain op where
    op: "entHdrOp d (t + ro) = Inr op" and ne: "op \<noteq> tcmuOpCmd" and sz: "sz \<noteq> 0"
    and far: "68 \<le> sint (t + ro)" and len: "entHdrGetLen d (t + ro) = Inr l"
    and rest: "tail_skips d ((t + l) mod sz) ls"
    by (auto simp: assms(2,3) split: sum.splits)
  define t1 where "t1 = (t + l) mod sz"
  define d2 where "d2 = d1\<lparr>mmap := overlay (mmap d) 64 (le_put 4 t1)\<rparr>"
  note acc1 = retail_accessors[OF assms(1) Cons.prems(2,4)]
  have op1: "entHdrOp d1 (t + ro) = Inr op" using acc1(4)[OF far] op by simp
  have len1: "entHdrGetLen d1 (t + ro) = Inr l" using acc1(5)[OF far] len by simp
  have tail1: "mbCmdTail d1 = Inr t" using acc1(3) Cons.prems(3) by simp
  have sz1: "mbCmdrSize d1 = Inr sz" using acc1(2) assms(3) by simp
  have ta: "tail_after d1 t (t + ro) = Inr t1"
    by (simp add: tail_after_def len1 sz1 sz t1_def)
  have l1: "length (mmap d1) = length (mmap d)"
    using assms(1) Cons.prems(2,4) by (simp add: length_overlay)
  have again: "overlay (mmap d1) 64 (le_put 4 t1) = overlay (mmap d) 64 (le_put 4 t1)"
    unfolding Cons.prems(4) using assms(1) Cons.prems(2) by (intro overlay_again) simp_all
  have set: "mbSetTail d1 t1 = Inr d2"
    using assms(1) by (simp add: mbSetTail_def l1 d2_def again)
  have m2: "mmap d2 = overlay (mmap d) 64 (le_put 4 t1)" by (simp add: d2_def)
  have l4: "length (le_put 4 t1) = 4" by simp
  note acc2 = retail_accessors[OF assms(1) l4 m2]
  have teo: "tailEntryOff d2 = Inr (t1 + ro)"
    by (simp add: tailEntryOff_def acc2(1,3) assms(2) le32_roundtrip)
  have body: "skip_body d1 (t + ro) = Inr (d2, t1 + ro)"
    by (simp add: skip_body_def tail1 ta set teo)
  have step: "skip_loop d1 (t + ro) = skip_loop d2 (t1 + ro)"
    using ne by (subst skip_loop.simps) (simp add: op1 body)
  from Cons.IH[OF rest[folded t1_def] l4 le32_roundtrip m2]
  obtain tb' where "length tb' = 4" "le_bytes tb' = skip_walk sz t1 ls"
    "skip_loop d2 (t1 + ro) = Some (Inr (d2\<lparr>mmap := overlay (mmap d) 64 tb'\<rparr>, skip_walk sz t1 ls + ro))"
    by blast
  moreover have "d2\<lparr>mmap := overlay (mmap d) 64 tb'\<rparr> = d1\<lparr>mmap := overlay (mmap d) 64 tb'\<rparr>"
    by (simp add: d2_def)
  ultimately show ?case
    by (intro exI[of _ tb']) (simp add: step t1_def)
qed

lemma tail_skips_far:
  assumes "mbCmdrOffset d = Inr ro" and "mbCmdrSize d = Inr sz" and "tail_skips d t ls"
  shows "68 \<le> sint (skip_walk sz t ls + ro)"
  using assms(3)
proof (induction ls arbitrary: t)
  case Nil
  then show ?case by (simp add: assms(1))
next
  case (Cons l ls)
  from Cons.prems have "tail_skips d ((t + l) mod sz) ls"
    by (auto simp: assms(1,2) split: sum.splits)
  from Cons.IH[OF this] show ?case by simp
qed

subsection \<open>Writing the response into the entry\<close>

lemma overlay_self: "a + n \<le> length m \<Longrightarrow> overlay m a (take n (drop a m)) = m"
proof -
  assume a: "a + n \<le> length m"
  have "take n (drop a m) @ drop n (drop a m) = drop a m" by (rule append_take_drop_id)
  then have "take n (drop a m) @ drop (a + n) m = drop a m" by (simp add: add.commute)
  then have "take a m @ take n (drop a m) @ drop (a + n) m = m" by simp
  then show ?thesis using a by (simp add: overlay_def min_def)
qed

lemma sense_fill_short:
  "length buf = 96 \<Longrightarrow> length dat < 96 \<Longrightarrow>
   overlay (copy_into buf 0 dat) (length dat) (replicate (96 - length dat) 0)
     = dat @ replicate (96 - length dat) 0"
  by (simp add: copy_into_def overlay_def Let_def min_def)

lemma sense_fill_long:
  "length buf = 96 \<Longrightarrow> \<not> length dat < 96 \<Longrightarrow> copy_into buf 0 dat = take 96 dat"
  by (simp add: copy_into_def Let_def min_def)

lemma mm_slice_ok:
  assumes "0 \<le> sint lo" and "sint lo \<le> sint hi" and "nat (sint hi) \<le> length m"
  shows "mm_slice m lo hi = Inr (take (nat (sint hi) - nat (sint lo)) (drop (nat (sint lo)) m))"
  using assms by (simp add: mm_slice_def)

text \<open>Offsets inside an entry whose response part lies in the mapping do not overflow.\<close>

lemma entry_offsets:
  assumes "length m < 2 ^ 31" and "0 \<le> sint (off :: goint)" and "nat (sint off) + 112 \<le> length m"
    and "0 \<le> sint (k :: goint)" and "sint k \<le> 112"
  shows "sint (off + k) = sint off + sint k" and "0 \<le> sint (off + k)"
    and "nat (sint (off + k)) = nat (sint off) + nat (sint k)"
proof -
  have "int (nat (sint off) + 112) \<le> int (length m)" using assms(3) by (simp only: of_nat_le_iff)
  moreover have "int (length m) < 2 ^ 31" using assms(1) by (metis of_nat_less_iff of_nat_numeral of_nat_power)
  ultimately have "sint off + sint k < 2 ^ 31" using assms(2,5) by simp
  then show a: "sint (off + k) = sint off + sint k" using assms(2,4) by (rule sint_plus[rotated 2])
  show "0 \<le> sint (off + k)" using a assms(2,4) by simp
  show "nat (sint (off + k)) = nat (sint off) + nat (sint k)"
    using a assms(2,4) by (simp add: nat_add_distrib)
qed


lemma peek_overlay_out:
  assumes "a + length bs \<le> length m" and "0 \<le> sint i"
    and "nat (sint i) + n \<le> a \<or> a + length bs \<le> nat (sint i)"
  shows "peek (overlay m a bs) i n = peek m i n"
proof -
  have l: "length (overlay m a bs) = length m" using assms(1) by (simp add: length_overlay)
  have w: "take n (drop (nat (sint i)) (overlay m a bs)) = take n (drop (nat (sint i)) m)"
    using assms(1,3) by (rule window_overlay_out)
  show ?thesis by (simp add: peek_def in_range_def l w)
qed

lemma complete_at_writes:
  assumes len: "length (mmap d) < 2 ^ 31" and far: "68 \<le> sint off"
    and fit: "nat (sint off) + 112 \<le> length (mmap d)"
    and sz: "mbCmdrSize d = Inr sz" and nz: "sz \<noteq> 0" and L: "entHdrGetLen d off = Inr L"
    and tb: "length tb = 4" and tbv: "le_bytes tb = t'" and m2: "mmap d2 = overlay (mmap d) 64 tb"
  shows "\<exists>ib sb. length ib = 2 \<and> (le_bytes ib :: 16 word) = id_resp resp \<and> length sb = 96
          \<and> (status resp \<noteq> 0 \<longrightarrow>
                sb = take 96 (senseBuffer resp) @ replicate (96 - length (senseBuffer resp)) 0)
          \<and> (status resp = 0 \<longrightarrow> sb = take 96 (drop (nat (sint off) + 16) (mmap d)))
          \<and> (entCmdId d off = Inr (id_resp resp) \<longrightarrow> ib = take 2 (drop (nat (sint off) + 4) (mmap d)))
          \<and> complete_at d2 off resp =
               Inr (d2\<lparr>mmap := overlay (overlay (overlay (overlay (mmap d2) (nat (sint off) + 4) ib)
                                  (nat (sint off) + 8) [status resp]) (nat (sint off) + 16) sb)
                                  64 (le_put 4 ((t' + L) mod sz))\<rparr>)"
proof -
  define m where "m = mmap d"
  define ofs where "ofs = nat (sint off)"
  define mm2 where "mm2 = overlay m 64 tb"
  have o68: "68 \<le> ofs" using far by (simp add: ofs_def)
  have fit': "ofs + 112 \<le> length m" using fit by (simp add: ofs_def m_def)
  have off0: "0 \<le> sint off" using far by simp
  have k: "sint (0 :: goint) = 0" "sint (4 :: goint) = 4" "sint (8 :: goint) = 8"
    "sint (16 :: goint) = 16" "sint (112 :: goint) = 112" by simp_all
  note eo = entry_offsets[OF len off0 fit]
  have s0: "0 \<le> sint (off + 0)" "nat (sint (off + 0)) = ofs" by (simp_all add: off0 ofs_def)
  have s4: "0 \<le> sint (off + 4)" "nat (sint (off + 4)) = ofs + 4"
    using eo(2,3)[of 4] by (simp_all add: k ofs_def)
  have s8: "0 \<le> sint (off + 8)" "nat (sint (off + 8)) = ofs + 8"
    using eo(2,3)[of 8] by (simp_all add: k ofs_def)
  have s16: "0 \<le> sint (off + 16)" "nat (sint (off + 16)) = ofs + 16" "sint (off + 16) = sint off + 16"
    using eo(1,2,3)[of 16] by (simp_all add: k ofs_def)
  have s112: "0 \<le> sint (off + 112)" "nat (sint (off + 112)) = ofs + 112" "sint (off + 112) = sint off + 112"
    using eo(1,2,3)[of 112] by (simp_all add: k ofs_def)
  have l2: "length mm2 = length m" using fit' o68 tb by (simp add: mm2_def length_overlay)
  \<comment> \<open>the command id\<close>
  define i0 :: "16 word" where "i0 = le_bytes (take 2 (drop (ofs + 4) mm2))"
  define ib where "ib = (if i0 \<noteq> id_resp resp then le_put 2 (id_resp resp) else take 2 (drop (ofs + 4) mm2))"
  define ma where "ma = overlay mm2 (ofs + 4) ib"
  have lib: "length ib = 2" using fit' l2 by (simp add: ib_def)
  have la: "length ma = length m" using fit' l2 lib by (simp add: ma_def length_overlay)
  have w4: "take 2 (drop (ofs + 4) mm2) = take 2 (drop (ofs + 4) m)"
    unfolding mm2_def using fit' o68 tb by (intro window_overlay_out) simp_all
  have id2: "entCmdId d2 off = Inr i0"
    using fit' l2 s4 by (simp add: entCmdId_def offCmdId_def m2 m_def[symmetric] mm2_def[symmetric] peek_ok i0_def)
  have id0: "entCmdId d off = Inr i0"
    using fit' s4 by (simp add: entCmdId_def offCmdId_def m_def[symmetric] peek_ok i0_def w4)
  have vib: "(le_bytes ib :: 16 word) = id_resp resp"
    by (simp add: ib_def le16_roundtrip i0_def)
  have ib_same: "entCmdId d off = Inr (id_resp resp) \<longrightarrow> ib = take 2 (drop (ofs + 4) m)"
    using id0 by (simp add: ib_def w4)
  have stepa: "(if i0 \<noteq> id_resp resp then setEntCmdId d2 off (id_resp resp) else Inr d2)
               = Inr (d2\<lparr>mmap := ma\<rparr>)"
  proof (cases "i0 \<noteq> id_resp resp")
    case True
    then show ?thesis
      using fit' l2 s4
      by (simp add: setEntCmdId_def offCmdId_def poke_def in_range_def m2 m_def[symmetric]
          mm2_def[symmetric] ma_def ib_def)
  next
    case False
    then have "ma = mm2" using fit' l2 by (simp add: ma_def ib_def overlay_self)
    then have "d2\<lparr>mmap := ma\<rparr> = d2" by (simp add: m2 m_def mm2_def)
    then show ?thesis using False by simp
  qed
  \<comment> \<open>the status byte\<close>
  define mb where "mb = overlay ma (ofs + 8) [status resp]"
  have lb: "length mb = length m" using fit' la by (simp add: mb_def length_overlay)
  have stepb: "setEntRespSCSIStatus (d2\<lparr>mmap := ma\<rparr>) off (status resp) = Inr (d2\<lparr>mmap := mb\<rparr>)"
    using fit' la s8
    by (simp add: setEntRespSCSIStatus_def offRespSCSIStatus_def entReqRespOff_def in_range_def
        mb_def update_overlay)
  \<comment> \<open>the sense buffer\<close>
  define sb where "sb = (if status resp \<noteq> 0
       then take 96 (senseBuffer resp) @ replicate (96 - length (senseBuffer resp)) 0
       else take 96 (drop (ofs + 16) mb))"
  define mc where "mc = overlay mb (ofs + 16) sb"
  have lsb: "length sb = 96" using fit' lb by (auto simp: sb_def min_def)
  have lc: "length mc = length m" using fit' lb lsb by (simp add: mc_def length_overlay)
  have w16: "take 96 (drop (ofs + 16) mb) = take 96 (drop (ofs + 16) m)"
  proof -
    have "take 96 (drop (ofs + 16) mb) = take 96 (drop (ofs + 16) ma)"
      unfolding mb_def using fit' la by (intro window_overlay_out) simp_all
    also have "\<dots> = take 96 (drop (ofs + 16) mm2)"
      unfolding ma_def using fit' l2 lib by (intro window_overlay_out) simp_all
    also have "\<dots> = take 96 (drop (ofs + 16) m)"
      unfolding mm2_def using fit' o68 tb by (intro window_overlay_out) simp_all
    finally show ?thesis .
  qed
  have stepc: "(if status resp \<noteq> SamStatGood
                then copyEntRespSenseData (d2\<lparr>mmap := mb\<rparr>) off (senseBuffer resp)
                else Inr (d2\<lparr>mmap := mb\<rparr>)) = Inr (d2\<lparr>mmap := mc\<rparr>)"
  proof (cases "status resp \<noteq> 0")
    case True
    have sl: "mm_slice mb (off + 16) (off + 112) = Inr (take 96 (drop (ofs + 16) mb))"
      using fit' lb s16 s112 off0 by (simp add: mm_slice_ok)
    have "length (take 96 (drop (ofs + 16) mb)) = 96" using fit' lb by simp
    note fill = sense_fill_short[OF this, of "senseBuffer resp"] sense_fill_long[OF this, of "senseBuffer resp"]
    have hi: "off + offRespSense + of_nat tcmuSenseBufferSize = off + 112"
      by (simp add: offRespSense_def entReqRespOff_def tcmuSenseBufferSize_def)
    have lo: "off + offRespSense = off + 16"
      by (simp add: offRespSense_def entReqRespOff_def)
    have "copyEntRespSenseData (d2\<lparr>mmap := mb\<rparr>) off (senseBuffer resp) = Inr (d2\<lparr>mmap := mc\<rparr>)"
      unfolding copyEntRespSenseData_def Let_def hi
      using True s16(2)
      by (simp add: lo sl fill tcmuSenseBufferSize_def mc_def sb_def)
    then show ?thesis
      using True by (simp add: SamStatGood_def)
  next
    case False
    then have "mc = mb" using fit' lb by (simp add: mc_def sb_def overlay_self)
    then show ?thesis using False by (simp add: SamStatGood_def)
  qed
  \<comment> \<open>the shared tail\<close>
  have pk_tail: "peek mc 64 4 = Inr tb"
  proof -
    have "peek mc 64 4 = peek mb 64 4"
      unfolding mc_def using fit' lb lsb o68 by (intro peek_overlay_out) simp_all
    also have "\<dots> = peek ma 64 4"
      unfolding mb_def using fit' la o68 by (intro peek_overlay_out) simp_all
    also have "\<dots> = peek mm2 64 4"
      unfolding ma_def using fit' l2 lib o68 by (intro peek_overlay_out) simp_all
    also have "\<dots> = Inr tb"
      using fit' o68 tb window_overlay_in[of 64 tb m] l2
      by (simp add: peek_def in_range_def mm2_def)
    finally show ?thesis .
  qed
  have pk_low: "peek mc i 4 = peek m i 4" if "0 \<le> sint i" "nat (sint i) + 4 \<le> 64 \<or> (68 \<le> nat (sint i) \<and> nat (sint i) + 4 \<le> ofs + 4)" for i
  proof -
    have "peek mc i 4 = peek mb i 4"
      unfolding mc_def using fit' lb lsb o68 that by (intro peek_overlay_out) auto
    also have "\<dots> = peek ma i 4"
      unfolding mb_def using fit' la o68 that by (intro peek_overlay_out) auto
    also have "\<dots> = peek mm2 i 4"
      unfolding ma_def using fit' l2 lib o68 that by (intro peek_overlay_out) auto
    also have "\<dots> = peek m i 4"
      unfolding mm2_def using fit' o68 tb that by (intro peek_overlay_out) auto
    finally show ?thesis .
  qed
  have tail_c: "mbCmdTail (d2\<lparr>mmap := mc\<rparr>) = Inr t'"
    by (simp add: mbCmdTail_def pk_tail tbv)
  have size_c: "mbCmdrSize (d2\<lparr>mmap := mc\<rparr>) = Inr sz"
    using sz pk_low[of 8] by (simp add: mbCmdrSize_def m_def)
  have len_c: "entHdrGetLen (d2\<lparr>mmap := mc\<rparr>) off = Inr L"
    using L pk_low[of "off + 0"] s0 o68 by (simp add: entHdrGetLen_def offLenOp_def m_def)
  have ta: "tail_after (d2\<lparr>mmap := mc\<rparr>) t' off = Inr ((t' + L) mod sz)"
    by (simp add: tail_after_def len_c size_c nz)
  have set: "mbSetTail (d2\<lparr>mmap := mc\<rparr>) ((t' + L) mod sz)
             = Inr (d2\<lparr>mmap := overlay mc 64 (le_put 4 ((t' + L) mod sz))\<rparr>)"
    using fit' lc o68 by (simp add: mbSetTail_def)
  have run: "complete_at d2 off resp = Inr (d2\<lparr>mmap := overlay mc 64 (le_put 4 ((t' + L) mod sz))\<rparr>)"
    unfolding complete_at_def id2 by (simp add: stepa stepb stepc tail_c ta set)
  have sb1: "status resp \<noteq> 0 \<longrightarrow>
                sb = take 96 (senseBuffer resp) @ replicate (96 - length (senseBuffer resp)) 0"
    by (simp add: sb_def)
  have sb0: "status resp = 0 \<longrightarrow> sb = take 96 (drop (ofs + 16) m)"
    by (simp add: sb_def w16)
  show ?thesis
    apply (rule exI[of _ ib], rule exI[of _ sb])
    using lib vib lsb sb1 sb0 ib_same run
    unfolding mc_def mb_def ma_def mm2_def m_def ofs_def m2
    by simp
qed

lemma completed_mmap:
  assumes "68 \<le> ofs" and "ofs + 112 \<le> length m" and "length tb = 4" and "length ib = 2"
    and "length sb = 96" and "length tw = 4"
    and "M = overlay (overlay (overlay (overlay (overlay m 64 tb) (ofs + 4) ib) (ofs + 8) [st])
                 (ofs + 16) sb) 64 tw"
  shows "length M = length m"
    and "take 4 (drop 64 M) = tw"
    and "take 2 (drop (ofs + 4) M) = ib"
    and "M ! (ofs + 8) = st"
    and "take 96 (drop (ofs + 16) M) = sb"
    and "\<forall>i<length m. \<not> (64 \<le> i \<and> i < 68) \<and> \<not> (ofs + 4 \<le> i \<and> i < ofs + 6) \<and> i \<noteq> ofs + 8
            \<and> \<not> (ofs + 16 \<le> i \<and> i < ofs + 112) \<longrightarrow> M ! i = m ! i"
proof -
  define m1 where "m1 = overlay m 64 tb"
  define m2 where "m2 = overlay m1 (ofs + 4) ib"
  define m3 where "m3 = overlay m2 (ofs + 8) [st]"
  define m4 where "m4 = overlay m3 (ofs + 16) sb"
  have M: "M = overlay m4 64 tw" by (simp add: assms(7) m4_def m3_def m2_def m1_def)
  have l1: "length m1 = length m" using assms(1,2,3) by (simp add: m1_def length_overlay)
  have l2: "length m2 = length m" using assms(2,4) l1 by (simp add: m2_def length_overlay)
  have l3: "length m3 = length m" using assms(2) l2 by (simp add: m3_def length_overlay)
  have l4: "length m4 = length m" using assms(2,5) l3 by (simp add: m4_def length_overlay)
  show lM: "length M = length m" using assms(1,2,6) l4 by (simp add: M length_overlay)
  have f1: "64 + length tb \<le> length m" using assms(1,2,3) by simp
  have f2: "ofs + 4 + length ib \<le> length m1" using assms(2,4) l1 by simp
  have f3: "ofs + 8 + length [st] \<le> length m2" using assms(2) l2 by simp
  have f4: "ofs + 16 + length sb \<le> length m3" using assms(2,5) l3 by simp
  have f5: "64 + length tw \<le> length m4" using assms(1,2,6) l4 by simp
  show "take 4 (drop 64 M) = tw"
    using window_overlay_in[OF f5] assms(6) by (simp add: M)
  show "take 2 (drop (ofs + 4) M) = ib"
  proof -
    have "take 2 (drop (ofs + 4) M) = take 2 (drop (ofs + 4) m4)"
      unfolding M using f5 assms(1,6) by (intro window_overlay_out) simp_all
    also have "\<dots> = take 2 (drop (ofs + 4) m3)"
      unfolding m4_def using f4 by (intro window_overlay_out) simp_all
    also have "\<dots> = take 2 (drop (ofs + 4) m2)"
      unfolding m3_def using f3 by (intro window_overlay_out) simp_all
    also have "\<dots> = ib"
      unfolding m2_def using window_overlay_in[OF f2] assms(4) by simp
    finally show ?thesis .
  qed
  show "M ! (ofs + 8) = st"
  proof -
    have i: "ofs + 8 < length m" using assms(2) by simp
    have "M ! (ofs + 8) = m4 ! (ofs + 8)"
      unfolding M using nth_overlay[OF f5, of "ofs + 8"] i l4 assms(1,6) by simp
    also have "\<dots> = m3 ! (ofs + 8)"
      unfolding m4_def using nth_overlay[OF f4, of "ofs + 8"] i l3 by simp
    also have "\<dots> = st"
      unfolding m3_def using nth_overlay[OF f3, of "ofs + 8"] i l2 by simp
    finally show ?thesis .
  qed
  show "take 96 (drop (ofs + 16) M) = sb"
  proof -
    have "take 96 (drop (ofs + 16) M) = take 96 (drop (ofs + 16) m4)"
      unfolding M using f5 assms(1,6) by (intro window_overlay_out) simp_all
    also have "\<dots> = sb"
      unfolding m4_def using window_overlay_in[OF f4] assms(5) by simp
    finally show ?thesis .
  qed
  show "\<forall>i<length m. \<not> (64 \<le> i \<and> i < 68) \<and> \<not> (ofs + 4 \<le> i \<and> i < ofs + 6) \<and> i \<noteq> ofs + 8
            \<and> \<not> (ofs + 16 \<le> i \<and> i < ofs + 112) \<longrightarrow> M ! i = m ! i"
  proof (intro allI impI)
    fix i
    assume i: "i < length m"
      and out: "\<not> (64 \<le> i \<and> i < 68) \<and> \<not> (ofs + 4 \<le> i \<and> i < ofs + 6) \<and> i \<noteq> ofs + 8
            \<and> \<not> (ofs + 16 \<le> i \<and> i < ofs + 112)"
    have c5: "\<not> (64 \<le> i \<and> i < 64 + length tw)" using out assms(6) by arith
    have c4: "\<not> (ofs + 16 \<le> i \<and> i < ofs + 16 + length sb)" using out assms(5) by arith
    have c3: "\<not> (ofs + 8 \<le> i \<and> i < ofs + 8 + length [st])" using out by simp
    have c2: "\<not> (ofs + 4 \<le> i \<and> i < ofs + 4 + length ib)" using out assms(4) by arith
    have c1: "\<not> (64 \<le> i \<and> i < 64 + length tb)" using out assms(3) by arith
    have i4: "i < length m4" and i3: "i < length m3" and i2: "i < length m2" and i1: "i < length m1"
      using i l1 l2 l3 l4 by simp_all
    have "M ! i = m4 ! i"
      unfolding M by (simp only: nth_overlay[OF f5 i4] c5 if_False)
    also have "\<dots> = m3 ! i"
      unfolding m4_def by (simp only: nth_overlay[OF f4 i3] c4 if_False)
    also have "\<dots> = m2 ! i"
      unfolding m3_def by (simp only: nth_overlay[OF f3 i2] c3 if_False)
    also have "\<dots> = m1 ! i"
      unfolding m2_def by (simp only: nth_overlay[OF f2 i1] c2 if_False)
    also have "\<dots> = m ! i"
      unfolding m1_def by (simp only: nth_overlay[OF f1 i] c1 if_False)
    finally show "M ! i = m ! i" .
  qed
qed


lemma peek_Inr:
  assumes "peek m i n = Inr bs"
  shows "0 \<le> sint i" and "nat (sint i) + n \<le> length m" and "bs = take n (drop (nat (sint i)) m)"
  using assms by (simp_all add: peek_def in_range_def split: if_splits)

lemma mbCmdTail_Inr:
  assumes "mbCmdTail d = Inr t"
  shows "68 \<le> length (mmap d)" and "le_bytes (take 4 (drop 64 (mmap d))) = t"
proof -
  from assms obtain bs where p: "peek (mmap d) 64 4 = Inr bs" and b: "le_bytes bs = t"
    by (cases "peek (mmap d) 64 4") (simp_all add: mbCmdTail_def)
  from peek_Inr(2)[OF p] show "68 \<le> length (mmap d)" by simp
  from peek_Inr(3)[OF p] b show "le_bytes (take 4 (drop 64 (mmap d))) = t" by simp
qed

lemma completeCommand_writes:
  assumes len: "length (mmap d) < 2 ^ 31"
    and ro: "mbCmdrOffset d = Inr ro" and sz: "mbCmdrSize d = Inr sz" and nz: "sz \<noteq> 0"
    and t: "mbCmdTail d = Inr t" and ts: "tail_skips d t ls"
    and off: "off = skip_walk sz t ls + ro"
    and fit: "nat (sint off) + 112 \<le> length (mmap d)"
    and L: "entHdrGetLen d off = Inr L"
  shows "\<exists>tb ib sb.
           length tb = 4 \<and> le_bytes tb = skip_walk sz t ls
         \<and> length ib = 2 \<and> (le_bytes ib :: 16 word) = id_resp resp \<and> length sb = 96
         \<and> (status resp \<noteq> 0 \<longrightarrow>
                sb = take 96 (senseBuffer resp) @ replicate (96 - length (senseBuffer resp)) 0)
         \<and> (status resp = 0 \<longrightarrow> sb = take 96 (drop (nat (sint off) + 16) (mmap d)))
         \<and> (entCmdId d off = Inr (id_resp resp) \<longrightarrow> ib = take 2 (drop (nat (sint off) + 4) (mmap d)))
         \<and> skip_loop d (t + ro) = Some (Inr (d\<lparr>mmap := overlay (mmap d) 64 tb\<rparr>, off))
         \<and> completeCommand d resp =
             Some (Inr (d\<lparr>mmap := overlay (overlay (overlay (overlay (overlay (mmap d) 64 tb)
                                  (nat (sint off) + 4) ib)
                                  (nat (sint off) + 8) [status resp]) (nat (sint off) + 16) sb)
                                  64 (le_put 4 ((skip_walk sz t ls + L) mod sz))\<rparr>))"
proof -
  define tb0 where "tb0 = take 4 (drop 64 (mmap d))"
  have l68: "68 \<le> length (mmap d)" and t0: "le_bytes tb0 = t"
    using mbCmdTail_Inr[OF t] by (simp_all add: tb0_def)
  have ltb0: "length tb0 = 4" using l68 by (simp add: tb0_def)
  have self: "mmap d = overlay (mmap d) 64 tb0"
    unfolding tb0_def using l68 by (simp add: overlay_self)
  from skip_loop_reaches_cmd[OF l68 ro sz ts ltb0 t0 self]
  obtain tb where ltb: "length tb = 4" and vtb: "le_bytes tb = skip_walk sz t ls"
    and sk: "skip_loop d (t + ro) = Some (Inr (d\<lparr>mmap := overlay (mmap d) 64 tb\<rparr>, off))"
    unfolding off by blast
  define d2 where "d2 = d\<lparr>mmap := overlay (mmap d) 64 tb\<rparr>"
  have m2: "mmap d2 = overlay (mmap d) 64 tb" by (simp add: d2_def)
  have far: "68 \<le> sint off" unfolding off using ro sz ts by (rule tail_skips_far)
  from complete_at_writes[OF len far fit sz nz L ltb vtb m2, of resp]
  obtain ib sb where lib: "length ib = 2" and vib: "(le_bytes ib :: 16 word) = id_resp resp"
    and lsb: "length sb = 96"
    and s1: "status resp \<noteq> 0 \<longrightarrow>
                sb = take 96 (senseBuffer resp) @ replicate (96 - length (senseBuffer resp)) 0"
    and s0: "status resp = 0 \<longrightarrow> sb = take 96 (drop (nat (sint off) + 16) (mmap d))"
    and same: "entCmdId d off = Inr (id_resp resp) \<longrightarrow> ib = take 2 (drop (nat (sint off) + 4) (mmap d))"
    and ca: "complete_at d2 off resp =
               Inr (d2\<lparr>mmap := overlay (overlay (overlay (overlay (mmap d2) (nat (sint off) + 4) ib)
                                  (nat (sint off) + 8) [status resp]) (nat (sint off) + 16) sb)
                                  64 (le_put 4 ((skip_walk sz t ls + L) mod sz))\<rparr>)"
    by blast
  have teo: "tailEntryOff d = Inr (t + ro)" by (simp add: tailEntryOff_def t ro)
  have cc: "completeCommand d resp =
             Some (Inr (d\<lparr>mmap := overlay (overlay (overlay (overlay (overlay (mmap d) 64 tb)
                                  (nat (sint off) + 4) ib)
                                  (nat (sint off) + 8) [status resp]) (nat (sint off) + 16) sb)
                                  64 (le_put 4 ((skip_walk sz t ls + L) mod sz))\<rparr>))"
    unfolding completeCommand_def teo using sk ca by (simp add: d2_def)
  show ?thesis
    using ltb vtb lib vib lsb s1 s0 same sk cc by (intro exI[of _ tb] exI[of _ ib] exI[of _ sb] conjI)
qed

lemma recvResponse_one:
  "completeCommand d resp = Some (Inr d') \<Longrightarrow>
   recvResponse d [resp] = Some (Inr (d'\<lparr>uioWrites := uioWrites d' @ [[0, 0, 0, 0]]\<rparr>))"
  by (simp add: unix_Write_def numeral_eq_Suc)


lemma example2_length: "length (mmap example_device2) = 384"
  by (simp add: example_device2_def example_mmap2_def example_pad_def)

lemma example2_facts:
  "mbCmdrOffset example_device2 = Inr 128"
  "mbCmdrSize example_device2 = Inr 256"
  "mbCmdTail example_device2 = Inr 0"
  "tail_skips example_device2 0 [16]"
  "entHdrGetLen example_device2 144 = Inr 112"
  "entCmdId example_device2 144 = Inr 7"
  by code_simp+

text \<open>
  C4 as claimed fails in its last step: after completing a response the code writes the
  buffer \<^verbatim>\<open>make([]byte, 4)\<close>, four zero bytes, to the descriptor, not a single byte.
  On the second example mapping, for a response with id 7, status 2 and three sense
  bytes, the descriptor receives one write of four bytes.
\<close>

theorem completeCommand_four_bytes_counterexample:
  "uio_log (recvResponse example_device2 [\<lparr>id_resp = 7, status = 2, senseBuffer = [0x70, 0, 5]\<rparr>])
   = [[0, 0, 0, 0]]"
  by code_simp

text \<open>
  C4, amended. Let the shared tail \<open>t\<close> stand before entries of lengths \<open>ls\<close> whose
  opcode is not \<open>cmd\<close>, followed by an entry at \<open>off\<close> whose opcode is \<open>cmd\<close>, whose
  length is \<open>L\<close> and whose first 112 bytes lie in the mapping. Then the completion of a
  response returns: its first loop moves the shared tail past the skipped entries, to
  \<open>off\<close>; the entry's id then reads as the response id, its two bytes untouched when it
  was the response id already; the status byte at \<open>off + 8\<close> is the response status; the
  96 bytes of the sense buffer at \<open>off + 16\<close> hold the first 96 bytes of the sense data
  followed by zeros when the status is non-zero, and are as before when it is zero; the
  shared tail ends \<open>L\<close> further, modulo the ring size; no other byte of the mapping
  changes, nor the local tail; and \<open>recvResponse\<close> then writes four zero bytes to the
  descriptor.
\<close>

theorem completeCommand_effect:
  assumes "length (mmap d) < 2 ^ 31"
    and "mbCmdrOffset d = Inr ro" and "mbCmdrSize d = Inr sz" and "sz \<noteq> 0"
    and "mbCmdTail d = Inr t" and "tail_skips d t ls"
    and "off = skip_walk sz t ls + ro"
    and "nat (sint off) + 112 \<le> length (mmap d)"
    and "entHdrGetLen d off = Inr L"
  shows "\<exists>dm d'.
           skip_loop d (t + ro) = Some (Inr (dm, off))
         \<and> mbCmdTail dm = Inr (skip_walk sz t ls)
         \<and> completeCommand d resp = Some (Inr d')
         \<and> recvResponse d [resp] = Some (Inr (d'\<lparr>uioWrites := uioWrites d @ [[0, 0, 0, 0]]\<rparr>))
         \<and> scsi d' = scsi d \<and> cmdTail d' = cmdTail d \<and> uioWrites d' = uioWrites d
         \<and> length (mmap d') = length (mmap d)
         \<and> mbCmdTail d' = Inr ((skip_walk sz t ls + L) mod sz)
         \<and> entCmdId d' off = Inr (id_resp resp)
         \<and> (entCmdId d off = Inr (id_resp resp) \<longrightarrow>
              take 2 (drop (nat (sint off) + 4) (mmap d')) = take 2 (drop (nat (sint off) + 4) (mmap d)))
         \<and> mm_index (mmap d') (off + offRespSCSIStatus) = Inr (status resp)
         \<and> mm_slice (mmap d') (off + offRespSense) (off + offRespSense + 96) =
              Inr (if status resp \<noteq> 0
                   then take 96 (senseBuffer resp) @ replicate (96 - length (senseBuffer resp)) 0
                   else take 96 (drop (nat (sint off) + 16) (mmap d)))
         \<and> (\<forall>i<length (mmap d).
               \<not> (64 \<le> i \<and> i < 68) \<and> \<not> (nat (sint off) + 4 \<le> i \<and> i < nat (sint off) + 6)
               \<and> i \<noteq> nat (sint off) + 8
               \<and> \<not> (nat (sint off) + 16 \<le> i \<and> i < nat (sint off) + 112)
               \<longrightarrow> mmap d' ! i = mmap d ! i)"
proof -
  define ofs where "ofs = nat (sint off)"
  define tw where "tw = le_put 4 ((skip_walk sz t ls + L) mod sz)"
  from completeCommand_writes[OF assms, of resp]
  obtain tb ib sb where ltb: "length tb = 4" and vtb: "le_bytes tb = skip_walk sz t ls"
    and lib: "length ib = 2" and vib: "(le_bytes ib :: 16 word) = id_resp resp"
    and lsb: "length sb = 96"
    and s1: "status resp \<noteq> 0 \<longrightarrow>
                sb = take 96 (senseBuffer resp) @ replicate (96 - length (senseBuffer resp)) 0"
    and s0: "status resp = 0 \<longrightarrow> sb = take 96 (drop (ofs + 16) (mmap d))"
    and same: "entCmdId d off = Inr (id_resp resp) \<longrightarrow> ib = take 2 (drop (ofs + 4) (mmap d))"
    and sk: "skip_loop d (t + ro) = Some (Inr (d\<lparr>mmap := overlay (mmap d) 64 tb\<rparr>, off))"
    and cc: "completeCommand d resp =
             Some (Inr (d\<lparr>mmap := overlay (overlay (overlay (overlay (overlay (mmap d) 64 tb)
                                  (ofs + 4) ib) (ofs + 8) [status resp]) (ofs + 16) sb) 64 tw\<rparr>))"
    unfolding ofs_def tw_def by blast
  define M where "M = overlay (overlay (overlay (overlay (overlay (mmap d) 64 tb)
                                  (ofs + 4) ib) (ofs + 8) [status resp]) (ofs + 16) sb) 64 tw"
  define dm where "dm = d\<lparr>mmap := overlay (mmap d) 64 tb\<rparr>"
  define d' where "d' = d\<lparr>mmap := M\<rparr>"
  have far: "68 \<le> sint off" unfolding assms(7) using assms(2,3,6) by (rule tail_skips_far)
  have p0: "0 \<le> sint off" using far by simp
  have f68: "68 \<le> ofs" using far by (simp add: ofs_def)
  have fit: "ofs + 112 \<le> length (mmap d)" using assms(8) by (simp add: ofs_def)
  have ltw: "length tw = 4" by (simp add: tw_def)
  note R = completed_mmap[OF f68 fit ltb lib lsb ltw M_def]
  have l68: "68 \<le> length (mmap d)" using f68 fit by simp
  have c1: "skip_loop d (t + ro) = Some (Inr (dm, off))" using sk by (simp add: dm_def)
  have c2: "mbCmdTail dm = Inr (skip_walk sz t ls)"
    using retail_accessors(3)[OF l68 ltb, of dm] vtb by (simp add: dm_def)
  have c3: "completeCommand d resp = Some (Inr d')" using cc by (simp add: d'_def M_def)
  have c4: "recvResponse d [resp] = Some (Inr (d'\<lparr>uioWrites := uioWrites d @ [[0, 0, 0, 0]]\<rparr>))"
    using recvResponse_one[OF c3] by (simp add: d'_def)
  have c5: "scsi d' = scsi d" "cmdTail d' = cmdTail d" "uioWrites d' = uioWrites d"
    by (simp_all add: d'_def)
  have c6: "length (mmap d') = length (mmap d)" using R(1) by (simp add: d'_def)
  have c7: "mbCmdTail d' = Inr ((skip_walk sz t ls + L) mod sz)"
  proof -
    have "peek M 64 4 = Inr (take 4 (drop 64 M))"
      using R(1) l68 by (simp add: peek_def in_range_def)
    then show ?thesis
      by (simp add: mbCmdTail_def d'_def R(2) tw_def le32_roundtrip)
  qed
  have k4: "0 \<le> sint (4 :: goint)" "sint (4 :: goint) \<le> 112"
    and k8: "0 \<le> sint (8 :: goint)" "sint (8 :: goint) \<le> 112"
    and k16: "0 \<le> sint (16 :: goint)" "sint (16 :: goint) \<le> 112"
    and k112: "0 \<le> sint (112 :: goint)" "sint (112 :: goint) \<le> 112"
    by simp_all
  note o4 = entry_offsets[OF assms(1) p0 assms(8) k4]
  note o8 = entry_offsets[OF assms(1) p0 assms(8) k8]
  note o16 = entry_offsets[OF assms(1) p0 assms(8) k16]
  note o112 = entry_offsets[OF assms(1) p0 assms(8) k112]
  have n4: "nat (sint (off + 4)) = ofs + 4" using o4(3) by (simp add: ofs_def)
  have n8: "nat (sint (off + 8)) = ofs + 8" using o8(3) by (simp add: ofs_def)
  have n16: "nat (sint (off + 16)) = ofs + 16" using o16(3) by (simp add: ofs_def)
  have n112: "nat (sint (off + 112)) = ofs + 112" using o112(3) by (simp add: ofs_def)
  have c8: "entCmdId d' off = Inr (id_resp resp)"
  proof -
    have "peek M (off + 4) 2 = Inr (take 2 (drop (ofs + 4) M))"
      using o4(2) n4 R(1) fit by (simp add: peek_def in_range_def)
    then show ?thesis
      by (simp add: entCmdId_def offCmdId_def d'_def R(3) vib)
  qed
  have c9: "entCmdId d off = Inr (id_resp resp) \<longrightarrow>
              take 2 (drop (ofs + 4) (mmap d')) = take 2 (drop (ofs + 4) (mmap d))"
    using same R(3) by (simp add: d'_def)
  have c10: "mm_index (mmap d') (off + offRespSCSIStatus) = Inr (status resp)"
  proof -
    have e: "off + offRespSCSIStatus = off + 8"
      by (simp add: offRespSCSIStatus_def entReqRespOff_def)
    show ?thesis
      unfolding e using o8(2) n8 R(1,4) fit by (simp add: mm_index_def in_range_def d'_def)
  qed
  have c11: "mm_slice (mmap d') (off + offRespSense) (off + offRespSense + 96) =
              Inr (if status resp \<noteq> 0
                   then take 96 (senseBuffer resp) @ replicate (96 - length (senseBuffer resp)) 0
                   else take 96 (drop (ofs + 16) (mmap d)))"
  proof -
    have lo: "off + offRespSense = off + 16"
      by (simp add: offRespSense_def entReqRespOff_def)
    have hi: "off + 16 + 96 = off + 112" by simp
    have le: "sint (off + 16) \<le> sint (off + 112)" using o16(1) o112(1) by simp
    have hb: "nat (sint (off + 112)) \<le> length M" using n112 R(1) fit by simp
    have "mm_slice M (off + 16) (off + 112) = Inr (take 96 (drop (ofs + 16) M))"
      using mm_slice_ok[OF o16(2) le hb] unfolding n112 n16 by simp
    then have "mm_slice M (off + 16) (off + 112) = Inr sb" by (simp only: R(5))
    moreover have "sb = (if status resp \<noteq> 0
                   then take 96 (senseBuffer resp) @ replicate (96 - length (senseBuffer resp)) 0
                   else take 96 (drop (ofs + 16) (mmap d)))"
      using s0 s1 by simp
    ultimately show ?thesis unfolding lo hi by (simp add: d'_def)
  qed
  have c12: "\<forall>i<length (mmap d).
               \<not> (64 \<le> i \<and> i < 68) \<and> \<not> (ofs + 4 \<le> i \<and> i < ofs + 6)
               \<and> i \<noteq> ofs + 8
               \<and> \<not> (ofs + 16 \<le> i \<and> i < ofs + 112)
               \<longrightarrow> mmap d' ! i = mmap d ! i"
    using R(6) by (simp add: d'_def)
  show ?thesis
    unfolding ofs_def [symmetric]
    using c1 c2 c3 c4 c5 c6 c7 c8 c9 c10 c11 c12
    by (intro exI[of _ dm] exI[of _ d'] conjI)
qed

theorem completeCommand_effect_witness:
  "\<exists>d'. completeCommand example_device2 \<lparr>id_resp = 7, status = 2, senseBuffer = [0x70, 0, 5]\<rparr>
           = Some (Inr d')
       \<and> recvResponse example_device2 [\<lparr>id_resp = 7, status = 2, senseBuffer = [0x70, 0, 5]\<rparr>]
           = Some (Inr (d'\<lparr>uioWrites := [[0, 0, 0, 0]]\<rparr>))
       \<and> mbCmdTail d' = Inr 128
       \<and> entCmdId d' 144 = Inr 7
       \<and> mm_index (mmap d') 152 = Inr 2
       \<and> mm_slice (mmap d') 160 256 = Inr ([0x70, 0, 5] @ replicate 93 0)"
proof -
  define resp where "resp = \<lparr>id_resp = 7, status = 2, senseBuffer = [0x70 :: byte, 0, 5]\<rparr>"
  have nz: "(256 :: 32 word) \<noteq> 0" by simp
  have off: "(144 :: goint) = skip_walk 256 0 [16] + 128" by (simp add: skip_walk_def)
  have len: "length (mmap example_device2) < 2 ^ 31" by (simp add: example2_length)
  have fit: "nat (sint (144 :: goint)) + 112 \<le> length (mmap example_device2)"
    by (simp add: example2_length)
  note T = completeCommand_effect [OF len example2_facts(1,2) nz example2_facts(3,4) off fit
      example2_facts(5), of resp]
  then obtain dm d' where
    cc: "completeCommand example_device2 resp = Some (Inr d')"
    and rr: "recvResponse example_device2 [resp]
              = Some (Inr (d'\<lparr>uioWrites := uioWrites example_device2 @ [[0, 0, 0, 0]]\<rparr>))"
    and tl: "mbCmdTail d' = Inr ((skip_walk 256 0 [16] + 112) mod 256)"
    and ci: "entCmdId d' 144 = Inr (id_resp resp)"
    and st: "mm_index (mmap d') (144 + offRespSCSIStatus) = Inr (status resp)"
    and sn: "mm_slice (mmap d') (144 + offRespSense) (144 + offRespSense + 96) =
              Inr (if status resp \<noteq> 0
                   then take 96 (senseBuffer resp) @ replicate (96 - length (senseBuffer resp)) 0
                   else take 96 (drop (nat (sint (144 :: goint)) + 16) (mmap example_device2)))"
    by (elim exE conjE)
  have rr': "recvResponse example_device2 [resp] = Some (Inr (d'\<lparr>uioWrites := [[0, 0, 0, 0]]\<rparr>))"
    using rr by (simp add: example_device2_def)
  have tl': "mbCmdTail d' = Inr 128" using tl by (simp add: skip_walk_def)
  have ci': "entCmdId d' 144 = Inr 7" using ci by (simp add: resp_def)
  have st': "mm_index (mmap d') 152 = Inr 2"
    using st by (simp add: resp_def offRespSCSIStatus_def entReqRespOff_def)
  have sn': "mm_slice (mmap d') 160 256 = Inr ([0x70, 0, 5] @ replicate 93 0)"
    using sn by (simp add: resp_def offRespSense_def entReqRespOff_def)
  show ?thesis
    using cc rr' tl' ci' st' sn' unfolding resp_def
    by (intro exI[of _ d'] conjI)
qed

end
